theory Spec2Isabelle
  imports Main
begin

section \<open>Rows of the schema\<close>

text \<open>
  The tables of the consolidated migration (\<^verbatim>\<open>CREATE TABLE projects\<close>,
  \<^verbatim>\<open>project_shares\<close>, \<^verbatim>\<open>sections\<close>, \<^verbatim>\<open>tasks\<close>) with the nullability of the
  interfaces of \<^verbatim>\<open>src/types/index.ts\<close>: a column typed \<^verbatim>\<open>string | null\<close> is an
  option. A UUID is an opaque key (never the empty string, so the truthiness test
  of the hooks on an id is the test for non-null); a DATE is a day number and a
  TIMESTAMPTZ an instant, both integers.
\<close>

type_synonym uuid = nat
type_synonym date = int
type_synonym timestamptz = int

datatype task_status = Open | Done | Cancelled

datatype share_permission = View | Edit | Admin

record project =
  pr_id :: uuid
  pr_owner_id :: uuid
  pr_parent_id :: "uuid option"
  pr_name :: string
  pr_description :: "string option"
  pr_color :: string
  pr_sort_order :: int
  pr_is_archived :: bool
  pr_todoist_id :: "string option"
  pr_created_at :: timestamptz
  pr_updated_at :: timestamptz

record project_share =
  sh_id :: uuid
  sh_project_id :: uuid
  sh_shared_with_user_id :: uuid
  sh_permission :: share_permission
  sh_created_at :: timestamptz

record section_row =
  se_id :: uuid
  se_project_id :: uuid
  se_name :: string
  se_sort_order :: int
  se_todoist_id :: "string option"
  se_created_at :: timestamptz

record task =
  t_id :: uuid
  t_owner_id :: uuid
  t_project_id :: "uuid option"
  t_section_id :: "uuid option"
  t_parent_task_id :: "uuid option"
  t_title :: string
  t_description :: "string option"
  t_status :: task_status
  t_priority :: int
  t_due_date :: "date option"
  t_due_time :: "string option"
  t_deadline :: "date option"
  t_recurrence_rule :: "string option"
  t_recurrence_base_date :: "date option"
  t_blocked_by :: "uuid option"
  t_sort_order :: int
  t_completed_at :: "timestamptz option"
  t_todoist_id :: "string option"
  t_created_at :: timestamptz
  t_updated_at :: timestamptz

text \<open>The database: every table is the list of its rows.\<close>

record db =
  projects :: "project list"
  project_shares :: "project_share list"
  sections :: "section_row list"
  tasks :: "task list"

section \<open>Row level security policies\<close>

text \<open>
  One predicate per \<^verbatim>\<open>CREATE POLICY\<close>, named after the policy; the first argument
  is \<^verbatim>\<open>auth.uid()\<close> of an authenticated session. A comparison with a NULL column
  is not true, so \<^verbatim>\<open>projects.id = tasks.project_id\<close> reads
  \<open>Some (pr_id p) = t_project_id t\<close>. The subqueries are evaluated on the rows of
  the tables they name; the rows they look for (a project the user owns or holds
  a share on, a share of the user) are rows the user's own SELECT policies admit.
\<close>

definition view_own_projects :: "uuid \<Rightarrow> project \<Rightarrow> bool" where
  "view_own_projects uid p = (pr_owner_id p = uid)"

definition view_shared_projects :: "uuid \<Rightarrow> db \<Rightarrow> project \<Rightarrow> bool" where
  "view_shared_projects uid d p =
     (\<exists>s\<in>set (project_shares d). sh_project_id s = pr_id p \<and> sh_shared_with_user_id s = uid)"

definition delete_own_projects :: "uuid \<Rightarrow> project \<Rightarrow> bool" where
  "delete_own_projects uid p = (pr_owner_id p = uid)"

definition view_sections_of_accessible_projects :: "uuid \<Rightarrow> db \<Rightarrow> section_row \<Rightarrow> bool" where
  "view_sections_of_accessible_projects uid d s =
     (\<exists>p\<in>set (projects d). pr_id p = se_project_id s \<and>
        (pr_owner_id p = uid \<or>
         (\<exists>sh\<in>set (project_shares d).
            sh_project_id sh = pr_id p \<and> sh_shared_with_user_id sh = uid)))"

definition modify_sections_of_editable_projects :: "uuid \<Rightarrow> db \<Rightarrow> section_row \<Rightarrow> bool" where
  "modify_sections_of_editable_projects uid d s =
     (\<exists>p\<in>set (projects d). pr_id p = se_project_id s \<and>
        (pr_owner_id p = uid \<or>
         (\<exists>sh\<in>set (project_shares d).
            sh_project_id sh = pr_id p \<and> sh_shared_with_user_id sh = uid \<and>
            sh_permission sh \<in> {Edit, Admin})))"

definition view_own_inbox_tasks :: "uuid \<Rightarrow> task \<Rightarrow> bool" where
  "view_own_inbox_tasks uid t = (t_owner_id t = uid \<and> t_project_id t = None)"

definition insert_own_inbox_tasks :: "uuid \<Rightarrow> task \<Rightarrow> bool" where
  "insert_own_inbox_tasks uid t = (t_owner_id t = uid \<and> t_project_id t = None)"

definition update_own_inbox_tasks_using :: "uuid \<Rightarrow> task \<Rightarrow> bool" where
  "update_own_inbox_tasks_using uid t = (t_owner_id t = uid \<and> t_project_id t = None)"

definition update_own_inbox_tasks_check :: "uuid \<Rightarrow> task \<Rightarrow> bool" where
  "update_own_inbox_tasks_check uid t = (t_owner_id t = uid)"

definition delete_own_inbox_tasks :: "uuid \<Rightarrow> task \<Rightarrow> bool" where
  "delete_own_inbox_tasks uid t = (t_owner_id t = uid \<and> t_project_id t = None)"

definition view_tasks_in_accessible_projects :: "uuid \<Rightarrow> db \<Rightarrow> task \<Rightarrow> bool" where
  "view_tasks_in_accessible_projects uid d t =
     (t_project_id t \<noteq> None \<and>
      (\<exists>p\<in>set (projects d). Some (pr_id p) = t_project_id t \<and>
         (pr_owner_id p = uid \<or>
          (\<exists>sh\<in>set (project_shares d).
             sh_project_id sh = pr_id p \<and> sh_shared_with_user_id sh = uid))))"

definition modify_own_tasks_in_projects :: "uuid \<Rightarrow> db \<Rightarrow> task \<Rightarrow> bool" where
  "modify_own_tasks_in_projects uid d t =
     (t_project_id t \<noteq> None \<and> t_owner_id t = uid \<and>
      (\<exists>p\<in>set (projects d). Some (pr_id p) = t_project_id t \<and>
         (pr_owner_id p = uid \<or>
          (\<exists>sh\<in>set (project_shares d).
             sh_project_id sh = pr_id p \<and> sh_shared_with_user_id sh = uid))))"

definition modify_tasks_in_editable_shared_projects :: "uuid \<Rightarrow> db \<Rightarrow> task \<Rightarrow> bool" where
  "modify_tasks_in_editable_shared_projects uid d t =
     (t_project_id t \<noteq> None \<and>
      (\<exists>p\<in>set (projects d). Some (pr_id p) = t_project_id t \<and>
         (\<exists>sh\<in>set (project_shares d).
            sh_project_id sh = pr_id p \<and> sh_shared_with_user_id sh = uid \<and>
            sh_permission sh \<in> {Edit, Admin})))"

definition insert_tasks_in_projects :: "uuid \<Rightarrow> db \<Rightarrow> task \<Rightarrow> bool" where
  "insert_tasks_in_projects uid d t =
     (t_owner_id t = uid \<and> t_project_id t \<noteq> None \<and>
      (\<exists>p\<in>set (projects d). Some (pr_id p) = t_project_id t \<and>
         (pr_owner_id p = uid \<or>
          (\<exists>sh\<in>set (project_shares d).
             sh_project_id sh = pr_id p \<and> sh_shared_with_user_id sh = uid \<and>
             sh_permission sh \<in> {Edit, Admin}))))"

text \<open>
  Permissive policies of one table are combined with OR, over the policies of the
  command and the \<^verbatim>\<open>FOR ALL\<close> ones. A policy with no \<^verbatim>\<open>WITH CHECK\<close> checks the new
  row with its \<^verbatim>\<open>USING\<close> expression.
\<close>

definition projects_select_using :: "uuid \<Rightarrow> db \<Rightarrow> project \<Rightarrow> bool" where
  "projects_select_using uid d p = (view_own_projects uid p \<or> view_shared_projects uid d p)"

definition projects_delete_using :: "uuid \<Rightarrow> project \<Rightarrow> bool" where
  "projects_delete_using uid p = delete_own_projects uid p"

definition sections_select_using :: "uuid \<Rightarrow> db \<Rightarrow> section_row \<Rightarrow> bool" where
  "sections_select_using uid d s =
     (view_sections_of_accessible_projects uid d s \<or> modify_sections_of_editable_projects uid d s)"

definition sections_write_using :: "uuid \<Rightarrow> db \<Rightarrow> section_row \<Rightarrow> bool" where
  "sections_write_using uid d s = modify_sections_of_editable_projects uid d s"

definition tasks_select_using :: "uuid \<Rightarrow> db \<Rightarrow> task \<Rightarrow> bool" where
  "tasks_select_using uid d t =
     (view_own_inbox_tasks uid t \<or> view_tasks_in_accessible_projects uid d t \<or>
      modify_own_tasks_in_projects uid d t)"

definition tasks_insert_check :: "uuid \<Rightarrow> db \<Rightarrow> task \<Rightarrow> bool" where
  "tasks_insert_check uid d t =
     (insert_own_inbox_tasks uid t \<or> modify_own_tasks_in_projects uid d t \<or>
      insert_tasks_in_projects uid d t)"

definition tasks_update_using :: "uuid \<Rightarrow> db \<Rightarrow> task \<Rightarrow> bool" where
  "tasks_update_using uid d t =
     (update_own_inbox_tasks_using uid t \<or> modify_own_tasks_in_projects uid d t \<or>
      modify_tasks_in_editable_shared_projects uid d t)"

definition tasks_update_check :: "uuid \<Rightarrow> db \<Rightarrow> task \<Rightarrow> bool" where
  "tasks_update_check uid d t =
     (update_own_inbox_tasks_check uid t \<or> modify_own_tasks_in_projects uid d t \<or>
      modify_tasks_in_editable_shared_projects uid d t)"

definition tasks_delete_using :: "uuid \<Rightarrow> db \<Rightarrow> task \<Rightarrow> bool" where
  "tasks_delete_using uid d t =
     (delete_own_inbox_tasks uid t \<or> modify_own_tasks_in_projects uid d t)"

section \<open>Expansion of the policies\<close>

text \<open>
  A statement is rewritten before it runs: the rewriter adds to every table the
  statement names the expressions of that table's policies, then rewrites the
  subqueries of those expressions in the same way. What matters for the rewriting
  is which tables a subquery names and which subqueries it contains; what the
  expressions evaluate to on a row is given by the predicates above.
\<close>

datatype relation = Profiles | Projects | Project_shares | Sections | Tasks

datatype command = Select | Insert | Update | Delete

datatype subquery = Subquery "relation list" "subquery list"

text \<open>
  A policy as the catalog holds it: its name, its table, its command (\<open>None\<close> is
  \<^verbatim>\<open>FOR ALL\<close>) and the subqueries of its \<^verbatim>\<open>USING\<close> and \<^verbatim>\<open>WITH CHECK\<close> expressions.
\<close>

record policy =
  pol_name :: string
  pol_table :: relation
  pol_command :: "command option"
  pol_sublinks :: "subquery list"

text \<open>
  \<^verbatim>\<open>EXISTS (SELECT 1 FROM projects WHERE ... AND (... OR EXISTS (SELECT 1 FROM
  project_shares WHERE ...)))\<close>, the subquery of the policies of \<^verbatim>\<open>sections\<close> and
  \<^verbatim>\<open>tasks\<close> that look at the project of the row.
\<close>

definition project_with_share :: subquery where
  "project_with_share = Subquery [Projects] [Subquery [Project_shares] []]"

text \<open>
  The policies of the schema on these five tables, in the order of their
  \<^verbatim>\<open>CREATE POLICY\<close>. The tables \<^verbatim>\<open>conversations\<close>, \<^verbatim>\<open>messages\<close> and \<^verbatim>\<open>user_settings\<close>
  are named by no statement of the hooks and by no policy of the five tables.
\<close>

definition policies :: "policy list" where
  "policies =
     [\<lparr>pol_name = ''Users can view own profile'', pol_table = Profiles,
        pol_command = Some Select, pol_sublinks = []\<rparr>,
      \<lparr>pol_name = ''Users can update own profile'', pol_table = Profiles,
        pol_command = Some Update, pol_sublinks = []\<rparr>,
      \<lparr>pol_name = ''Users can view shared user profiles'', pol_table = Profiles,
        pol_command = Some Select,
        pol_sublinks = [Subquery [Project_shares, Project_shares] [],
                        Subquery [Projects, Project_shares] [],
                        Subquery [Projects, Project_shares] []]\<rparr>,
      \<lparr>pol_name = ''Users can view own projects'', pol_table = Projects,
        pol_command = Some Select, pol_sublinks = []\<rparr>,
      \<lparr>pol_name = ''Users can view shared projects'', pol_table = Projects,
        pol_command = Some Select, pol_sublinks = [Subquery [Project_shares] []]\<rparr>,
      \<lparr>pol_name = ''Users can insert own projects'', pol_table = Projects,
        pol_command = Some Insert, pol_sublinks = []\<rparr>,
      \<lparr>pol_name = ''Users can update own projects'', pol_table = Projects,
        pol_command = Some Update, pol_sublinks = []\<rparr>,
      \<lparr>pol_name = ''Users can update shared projects with edit+'', pol_table = Projects,
        pol_command = Some Update, pol_sublinks = [Subquery [Project_shares] []]\<rparr>,
      \<lparr>pol_name = ''Users can delete own projects'', pol_table = Projects,
        pol_command = Some Delete, pol_sublinks = []\<rparr>,
      \<lparr>pol_name = ''Owners can manage shares'', pol_table = Project_shares,
        pol_command = None, pol_sublinks = [Subquery [Projects] []]\<rparr>,
      \<lparr>pol_name = ''Admins can manage shares'', pol_table = Project_shares,
        pol_command = None, pol_sublinks = [Subquery [Project_shares] []]\<rparr>,
      \<lparr>pol_name = ''Users can view their own shares'', pol_table = Project_shares,
        pol_command = Some Select, pol_sublinks = []\<rparr>,
      \<lparr>pol_name = ''Users can view sections of accessible projects'', pol_table = Sections,
        pol_command = Some Select, pol_sublinks = [project_with_share]\<rparr>,
      \<lparr>pol_name = ''Users can modify sections of editable projects'', pol_table = Sections,
        pol_command = None, pol_sublinks = [project_with_share]\<rparr>,
      \<lparr>pol_name = ''Users can view own inbox tasks'', pol_table = Tasks,
        pol_command = Some Select, pol_sublinks = []\<rparr>,
      \<lparr>pol_name = ''Users can insert own inbox tasks'', pol_table = Tasks,
        pol_command = Some Insert, pol_sublinks = []\<rparr>,
      \<lparr>pol_name = ''Users can update own inbox tasks'', pol_table = Tasks,
        pol_command = Some Update, pol_sublinks = []\<rparr>,
      \<lparr>pol_name = ''Users can delete own inbox tasks'', pol_table = Tasks,
        pol_command = Some Delete, pol_sublinks = []\<rparr>,
      \<lparr>pol_name = ''Users can view tasks in accessible projects'', pol_table = Tasks,
        pol_command = Some Select, pol_sublinks = [project_with_share]\<rparr>,
      \<lparr>pol_name = ''Users can modify own tasks in projects'', pol_table = Tasks,
        pol_command = None, pol_sublinks = [project_with_share]\<rparr>,
      \<lparr>pol_name = ''Users can modify tasks in editable shared projects'', pol_table = Tasks,
        pol_command = Some Update, pol_sublinks = [project_with_share]\<rparr>,
      \<lparr>pol_name = ''Users can insert tasks in projects'', pol_table = Tasks,
        pol_command = Some Insert, pol_sublinks = [project_with_share]\<rparr>]"

text \<open>
  The subqueries that the policies \<open>pols\<close> add to a table named by a statement of
  command \<open>cmd\<close>: those of the policies of the command, of the \<^verbatim>\<open>FOR ALL\<close> policies
  and of the SELECT policies (every statement of the hooks reads the rows it names
  or returns).
\<close>

definition security_quals :: "policy list \<Rightarrow> command \<Rightarrow> relation \<Rightarrow> subquery list" where
  "security_quals pols cmd rel =
     concat (map pol_sublinks
       (filter (\<lambda>p. pol_table p = rel \<and> pol_command p \<in> {None, Some cmd, Some Select})
          pols))"

definition all_relations :: "relation list" where
  "all_relations = [Profiles, Projects, Project_shares, Sections, Tasks]"

text \<open>
  Rewriting a subquery: its own subqueries first, then the policies of each table
  it names. A table whose policies have subqueries is kept on the list
  \<open>activeRIRs\<close> while these are rewritten; to meet a table that is on the list is
  the error \<^verbatim>\<open>infinite recursion detected in policy for relation\<close>.
\<close>

function recursion_detected :: "policy list \<Rightarrow> relation list \<Rightarrow> subquery \<Rightarrow> bool" where
  "recursion_detected pols activeRIRs (Subquery rtable sublinks) =
     ((\<exists>q\<in>set sublinks. recursion_detected pols activeRIRs q) \<or>
      (\<exists>rel\<in>set rtable.
         if security_quals pols Select rel = [] then False
         else if rel \<in> set activeRIRs then True
         else \<exists>q\<in>set (security_quals pols Select rel).
                recursion_detected pols (activeRIRs @ [rel]) q))"
  by pat_completeness auto
termination
proof (relation "inv_image (less_than <*lex*> less_than)
         (\<lambda>(pols, activeRIRs, q).
            (length (filter (\<lambda>r. r \<notin> set activeRIRs) all_relations), size q))")
  show "wf (inv_image (less_than <*lex*> less_than)
         (\<lambda>(pols :: policy list, activeRIRs, q :: subquery).
            (length (filter (\<lambda>r. r \<notin> set activeRIRs) all_relations), size q)))"
    by (intro wf_inv_image wf_lex_prod wf_less_than)
next
  fix pols :: "policy list" and activeRIRs :: "relation list" and rtable :: "relation list"
    and sublinks :: "subquery list" and q :: subquery
  assume "q \<in> set sublinks"
  then have "size q < size (Subquery rtable sublinks)"
    by (induction sublinks) auto
  then show "((pols, activeRIRs, q), pols, activeRIRs, Subquery rtable sublinks)
       \<in> inv_image (less_than <*lex*> less_than)
         (\<lambda>(pols, activeRIRs, q).
            (length (filter (\<lambda>r. r \<notin> set activeRIRs) all_relations), size q))"
    by simp
next
  fix pols :: "policy list" and activeRIRs :: "relation list" and rtable :: "relation list"
    and sublinks :: "subquery list" and rel :: relation and q :: subquery
  assume "rel \<notin> set activeRIRs"
  then have "rel \<in> set (filter (\<lambda>r. r \<notin> set activeRIRs) all_relations)"
    by (cases rel) (simp_all add: all_relations_def)
  then have "length (filter (\<lambda>r. r \<noteq> rel) (filter (\<lambda>r. r \<notin> set activeRIRs) all_relations))
             < length (filter (\<lambda>r. r \<notin> set activeRIRs) all_relations)"
    by (intro length_filter_less) auto
  moreover have "filter (\<lambda>r. r \<notin> set (activeRIRs @ [rel])) all_relations =
                 filter (\<lambda>r. r \<noteq> rel) (filter (\<lambda>r. r \<notin> set activeRIRs) all_relations)"
    by (auto intro: filter_cong)
  ultimately show "((pols, activeRIRs @ [rel], q), pols, activeRIRs, Subquery rtable sublinks)
       \<in> inv_image (less_than <*lex*> less_than)
         (\<lambda>(pols, activeRIRs, q).
            (length (filter (\<lambda>r. r \<notin> set activeRIRs) all_relations), size q))"
    by simp
qed

text \<open>
  Rewriting a statement of command \<open>cmd\<close> on the table \<open>rel\<close>: the subqueries
  \<open>embedded\<close> in the statement itself are rewritten first, then the policies of
  \<open>rel\<close> for the command, with \<open>rel\<close> on the list. When this holds the statement
  fails with SQLSTATE 42P17 before it reads or writes a row.
\<close>

definition policy_recursion ::
  "policy list \<Rightarrow> command \<Rightarrow> relation \<Rightarrow> subquery list \<Rightarrow> bool" where
  "policy_recursion pols cmd rel embedded =
     ((\<exists>q\<in>set embedded. recursion_detected pols [] q) \<or>
      (\<exists>q\<in>set (security_quals pols cmd rel). recursion_detected pols [rel] q))"

section \<open>The access rule in the words of the specification\<close>

text \<open>
  The resolver and the read rule as the specification words them, to be compared
  with the policies: the owner resolves to admin, a share row to its permission,
  anything else (also a project that does not exist) to none.
\<close>

datatype permission_level = NoAccess | Level share_permission

definition resolve :: "uuid \<Rightarrow> db \<Rightarrow> uuid \<Rightarrow> permission_level" where
  "resolve u d pid =
     (case find (\<lambda>p. pr_id p = pid) (projects d) of
        None \<Rightarrow> NoAccess
      | Some p \<Rightarrow>
          if u = pr_owner_id p then Level Admin
          else (case find (\<lambda>s. sh_project_id s = pid \<and> sh_shared_with_user_id s = u)
                      (project_shares d) of
                  None \<Rightarrow> NoAccess
                | Some s \<Rightarrow> Level (sh_permission s)))"

definition canRead :: "uuid \<Rightarrow> db \<Rightarrow> task \<Rightarrow> bool" where
  "canRead u d t =
     (case t_project_id t of
        None \<Rightarrow> t_owner_id t = u
      | Some pid \<Rightarrow> resolve u d pid \<noteq> NoAccess)"

section \<open>Reading one task\<close>

text \<open>
  What a hook throws: the errors of the API server (\<open>PGRST116\<close>, a result of
  \<^verbatim>\<open>.single()\<close> that is not one row, with the number of rows; \<open>PGRST201\<close>, an
  embedded resource with more than one candidate relationship), the errors of the
  database (the recursion of policies, SQLSTATE 42P17; a row level security,
  CHECK, primary key or foreign key violation) and the hook's own
  \<^verbatim>\<open>Not authenticated\<close>.
\<close>

datatype pg_error =
    PGRST116 nat
  | PGRST201
  | Infinite_recursion_in_policy
  | RLS_violation
  | Check_violation
  | Unique_violation
  | FK_violation
  | Not_authenticated

text \<open>
  The request of \<^verbatim>\<open>useTask\<close> embeds \<^verbatim>\<open>subtasks:tasks(*)\<close> with no hint of the foreign
  key, and \<^verbatim>\<open>tasks\<close> references itself twice (\<^verbatim>\<open>parent_task_id\<close>, \<^verbatim>\<open>blocked_by\<close>). How
  the API server resolves the embedding is a fact of its schema cache and is an
  input here.
\<close>

datatype embedding = Resolved | Ambiguous

text \<open>
  \<^verbatim>\<open>useTask\<close>: no id gives null and no request. Otherwise the request is planned,
  which fails if the embedding is ambiguous; the statement, a SELECT on \<^verbatim>\<open>tasks\<close>
  with the embedded subqueries on \<^verbatim>\<open>tasks\<close> and \<^verbatim>\<open>projects\<close>, is rewritten with the
  policies \<open>pols\<close> of the catalog, which fails if they recurse; then the rows with
  that id that the SELECT policies admit are fetched and \<^verbatim>\<open>.single()\<close> turns any
  number of rows other than one into the error \<open>PGRST116\<close>. The hook throws every
  error. The contents of the embedded \<^verbatim>\<open>subtasks\<close> and \<^verbatim>\<open>project\<close> of the returned row
  are not part of the model.
\<close>

definition useTask ::
  "embedding \<Rightarrow> policy list \<Rightarrow> uuid \<Rightarrow> db \<Rightarrow> uuid option \<Rightarrow> pg_error + task option" where
  "useTask emb pols uid d task_id =
     (case task_id of
        None \<Rightarrow> Inr None
      | Some i \<Rightarrow>
          if emb = Ambiguous then Inl PGRST201
          else if policy_recursion pols Select Tasks [Subquery [Tasks] [], Subquery [Projects] []]
          then Inl Infinite_recursion_in_policy
          else (case filter (\<lambda>t. tasks_select_using uid d t \<and> t_id t = i) (tasks d) of
                  [t] \<Rightarrow> Inr (Some t)
                | rows \<Rightarrow> Inl (PGRST116 (length rows))))"

section \<open>Updating tasks\<close>

text \<open>
  \<^verbatim>\<open>UpdateTaskInput\<close>: every property is optional; an absent property is \<open>None\<close>,
  and a property of type \<^verbatim>\<open>T | null\<close> that is present carries an option.
\<close>

record UpdateTaskInput =
  u_title :: "string option"
  u_project_id :: "uuid option option"
  u_section_id :: "uuid option option"
  u_description :: "string option option"
  u_status :: "task_status option"
  u_priority :: "int option"
  u_due_date :: "date option option"
  u_due_time :: "string option option"
  u_deadline :: "date option option"
  u_blocked_by :: "uuid option option"
  u_sort_order :: "int option"
  u_completed_at :: "timestamptz option option"

definition no_columns :: UpdateTaskInput where
  "no_columns =
     \<lparr>u_title = None, u_project_id = None, u_section_id = None, u_description = None,
      u_status = None, u_priority = None, u_due_date = None, u_due_time = None,
      u_deadline = None, u_blocked_by = None, u_sort_order = None, u_completed_at = None\<rparr>"

text \<open>The SET list of the UPDATE: the columns the input names, and no other.\<close>

definition set_columns :: "UpdateTaskInput \<Rightarrow> task \<Rightarrow> task" where
  "set_columns inp t =
     t\<lparr>t_title := (case u_title inp of None \<Rightarrow> t_title t | Some v \<Rightarrow> v),
       t_project_id := (case u_project_id inp of None \<Rightarrow> t_project_id t | Some v \<Rightarrow> v),
       t_section_id := (case u_section_id inp of None \<Rightarrow> t_section_id t | Some v \<Rightarrow> v),
       t_description := (case u_description inp of None \<Rightarrow> t_description t | Some v \<Rightarrow> v),
       t_status := (case u_status inp of None \<Rightarrow> t_status t | Some v \<Rightarrow> v),
       t_priority := (case u_priority inp of None \<Rightarrow> t_priority t | Some v \<Rightarrow> v),
       t_due_date := (case u_due_date inp of None \<Rightarrow> t_due_date t | Some v \<Rightarrow> v),
       t_due_time := (case u_due_time inp of None \<Rightarrow> t_due_time t | Some v \<Rightarrow> v),
       t_deadline := (case u_deadline inp of None \<Rightarrow> t_deadline t | Some v \<Rightarrow> v),
       t_blocked_by := (case u_blocked_by inp of None \<Rightarrow> t_blocked_by t | Some v \<Rightarrow> v),
       t_sort_order := (case u_sort_order inp of None \<Rightarrow> t_sort_order t | Some v \<Rightarrow> v),
       t_completed_at := (case u_completed_at inp of None \<Rightarrow> t_completed_at t | Some v \<Rightarrow> v)\<rparr>"

text \<open>
  The trigger \<^verbatim>\<open>update_tasks_updated_at\<close> (BEFORE UPDATE, FOR EACH ROW) stamps the
  new row with the server's \<^verbatim>\<open>NOW()\<close>.
\<close>

definition update_updated_at_column :: "timestamptz \<Rightarrow> task \<Rightarrow> task" where
  "update_updated_at_column now t = t\<lparr>t_updated_at := now\<rparr>"

text \<open>
  The constraints of \<^verbatim>\<open>tasks\<close>: \<^verbatim>\<open>CHECK(priority BETWEEN 0 AND 3)\<close> on every new
  row, and the foreign keys to \<^verbatim>\<open>projects\<close>, \<^verbatim>\<open>sections\<close> and \<^verbatim>\<open>tasks\<close>, checked for
  a key the update changes.
\<close>

definition priority_check :: "task \<Rightarrow> bool" where
  "priority_check t = (0 \<le> t_priority t \<and> t_priority t \<le> 3)"

definition fk_valid :: "uuid option \<Rightarrow> uuid list \<Rightarrow> bool" where
  "fk_valid k ids = (case k of None \<Rightarrow> True | Some i \<Rightarrow> i \<in> set ids)"

definition tasks_foreign_keys :: "db \<Rightarrow> task \<Rightarrow> task \<Rightarrow> bool" where
  "tasks_foreign_keys d old new =
     ((t_project_id new = t_project_id old \<or>
         fk_valid (t_project_id new) (map pr_id (projects d))) \<and>
      (t_section_id new = t_section_id old \<or>
         fk_valid (t_section_id new) (map se_id (sections d))) \<and>
      (t_parent_task_id new = t_parent_task_id old \<or>
         fk_valid (t_parent_task_id new) (map t_id (tasks d))) \<and>
      (t_blocked_by new = t_blocked_by old \<or>
         fk_valid (t_blocked_by new) (map t_id (tasks d))))"

text \<open>
  The execution of \<^verbatim>\<open>UPDATE tasks SET ... WHERE id = i RETURNING *\<close> once it is
  rewritten. The rows updated are those with the id that the SELECT and UPDATE
  policies admit (others are silently left out); every new row must pass the
  checks of the UPDATE policies and, being returned, the SELECT policies, else the
  statement fails; then the CHECK constraint and the foreign keys. A failed
  statement changes nothing.
\<close>

definition execute_update_tasks ::
  "uuid \<Rightarrow> timestamptz \<Rightarrow> db \<Rightarrow> uuid \<Rightarrow> UpdateTaskInput \<Rightarrow> pg_error + db \<times> task list" where
  "execute_update_tasks uid now d i inp =
     (let hit = (\<lambda>t. t_id t = i \<and> tasks_select_using uid d t \<and> tasks_update_using uid d t);
          new = (\<lambda>t. update_updated_at_column now (set_columns inp t));
          old_rows = filter hit (tasks d)
      in if \<exists>t\<in>set old_rows.
              \<not> (tasks_update_check uid d (new t) \<and> tasks_select_using uid d (new t))
         then Inl RLS_violation
         else if \<exists>t\<in>set old_rows. \<not> priority_check (new t) then Inl Check_violation
         else if \<exists>t\<in>set old_rows. \<not> tasks_foreign_keys d t (new t) then Inl FK_violation
         else Inr (d\<lparr>tasks := map (\<lambda>t. if hit t then new t else t) (tasks d)\<rparr>,
                   map new old_rows))"

text \<open>
  The statement as the database answers it: rewritten with the policies \<open>pols\<close> of
  the catalog, which fails if they recurse, then executed.
\<close>

definition sql_update_tasks ::
  "policy list \<Rightarrow> uuid \<Rightarrow> timestamptz \<Rightarrow> db \<Rightarrow> uuid \<Rightarrow> UpdateTaskInput \<Rightarrow>
     pg_error + db \<times> task list" where
  "sql_update_tasks pols uid now d i inp =
     (if policy_recursion pols Update Tasks [] then Inl Infinite_recursion_in_policy
      else execute_update_tasks uid now d i inp)"

text \<open>
  \<^verbatim>\<open>.select().single()\<close> on a mutation: exactly one returned row, or the error
  \<open>PGRST116\<close> and nothing is written.
\<close>

definition single :: "pg_error + db \<times> task list \<Rightarrow> pg_error + db \<times> task" where
  "single r =
     (case r of
        Inl e \<Rightarrow> Inl e
      | Inr (d', rows) \<Rightarrow>
          (case rows of [t] \<Rightarrow> Inr (d', t) | _ \<Rightarrow> Inl (PGRST116 (length rows))))"

text \<open>
  The mutation hooks. \<open>clock\<close> is the client's \<^verbatim>\<open>new Date()\<close>, \<open>now\<close> the server's
  \<^verbatim>\<open>NOW()\<close>; an error is what the hook throws.
\<close>

definition useUpdateTask ::
  "policy list \<Rightarrow> uuid \<Rightarrow> timestamptz \<Rightarrow> db \<Rightarrow> uuid \<Rightarrow> UpdateTaskInput \<Rightarrow>
     pg_error + db \<times> task" where
  "useUpdateTask pols uid now d i inp = single (sql_update_tasks pols uid now d i inp)"

definition useCompleteTask ::
  "policy list \<Rightarrow> uuid \<Rightarrow> timestamptz \<Rightarrow> timestamptz \<Rightarrow> db \<Rightarrow> uuid \<Rightarrow>
     pg_error + db \<times> task" where
  "useCompleteTask pols uid clock now d i =
     single (sql_update_tasks pols uid now d i
       (no_columns\<lparr>u_status := Some Done, u_completed_at := Some (Some clock)\<rparr>))"

definition useUncompleteTask ::
  "policy list \<Rightarrow> uuid \<Rightarrow> timestamptz \<Rightarrow> db \<Rightarrow> uuid \<Rightarrow> pg_error + db \<times> task" where
  "useUncompleteTask pols uid now d i =
     single (sql_update_tasks pols uid now d i
       (no_columns\<lparr>u_status := Some Open, u_completed_at := Some None\<rparr>))"

text \<open>The database after a hook has run: a hook that throws has written nothing.\<close>

definition db_after :: "db \<Rightarrow> pg_error + db \<times> 'a \<Rightarrow> db" where
  "db_after d r = (case r of Inl e \<Rightarrow> d | Inr (d', x) \<Rightarrow> d')"

section \<open>Creating a task\<close>

text \<open>
  \<^verbatim>\<open>CreateTaskInput\<close>: a title and optional properties. An optional property that
  is absent or null leaves its column NULL; an absent \<^verbatim>\<open>priority\<close> takes the column
  default.
\<close>

record CreateTaskInput =
  c_title :: string
  c_project_id :: "uuid option"
  c_section_id :: "uuid option"
  c_parent_task_id :: "uuid option"
  c_description :: "string option"
  c_priority :: "int option"
  c_due_date :: "date option"
  c_due_time :: "string option"
  c_deadline :: "date option"

text \<open>
  The row of \<^verbatim>\<open>insert({ ...input, owner_id: user.id })\<close>: \<open>new_id\<close> is the value of
  \<^verbatim>\<open>gen_random_uuid()\<close>, the other columns take their defaults.
\<close>

definition inserted_task :: "uuid \<Rightarrow> uuid \<Rightarrow> timestamptz \<Rightarrow> CreateTaskInput \<Rightarrow> task" where
  "inserted_task new_id owner now inp =
     \<lparr>t_id = new_id, t_owner_id = owner, t_project_id = c_project_id inp,
      t_section_id = c_section_id inp, t_parent_task_id = c_parent_task_id inp,
      t_title = c_title inp, t_description = c_description inp, t_status = Open,
      t_priority = (case c_priority inp of None \<Rightarrow> 0 | Some p \<Rightarrow> p),
      t_due_date = c_due_date inp, t_due_time = c_due_time inp, t_deadline = c_deadline inp,
      t_recurrence_rule = None, t_recurrence_base_date = None, t_blocked_by = None,
      t_sort_order = 0, t_completed_at = None, t_todoist_id = None, t_created_at = now,
      t_updated_at = now\<rparr>"

text \<open>
  The execution of \<^verbatim>\<open>INSERT INTO tasks ... RETURNING *\<close> once it is rewritten: the
  row is inserted if it passes the checks of the INSERT policies and, being
  returned, the SELECT policies, the CHECK constraint, the primary key and the
  foreign keys.
\<close>

definition execute_insert_task ::
  "uuid \<Rightarrow> uuid \<Rightarrow> timestamptz \<Rightarrow> db \<Rightarrow> CreateTaskInput \<Rightarrow> pg_error + db \<times> task" where
  "execute_insert_task uid new_id now d inp =
     (let row = inserted_task new_id uid now inp
      in if \<not> (tasks_insert_check uid d row \<and> tasks_select_using uid d row)
         then Inl RLS_violation
         else if \<not> priority_check row then Inl Check_violation
         else if new_id \<in> set (map t_id (tasks d)) then Inl Unique_violation
         else if \<not> (fk_valid (t_project_id row) (map pr_id (projects d)) \<and>
                   fk_valid (t_section_id row) (map se_id (sections d)) \<and>
                   fk_valid (t_parent_task_id row) (new_id # map t_id (tasks d)))
         then Inl FK_violation
         else Inr (d\<lparr>tasks := tasks d @ [row]\<rparr>, row))"

text \<open>
  \<^verbatim>\<open>useCreateTask\<close>: without a session user the hook throws; otherwise the INSERT is
  rewritten with the policies of the catalog, which fails if they recurse, and
  executed.
\<close>

definition useCreateTask ::
  "policy list \<Rightarrow> uuid option \<Rightarrow> uuid \<Rightarrow> timestamptz \<Rightarrow> db \<Rightarrow> CreateTaskInput \<Rightarrow>
     pg_error + db \<times> task" where
  "useCreateTask pols user new_id now d inp =
     (case user of
        None \<Rightarrow> Inl Not_authenticated
      | Some uid \<Rightarrow>
          if policy_recursion pols Insert Tasks [] then Inl Infinite_recursion_in_policy
          else execute_insert_task uid new_id now d inp)"

section \<open>Deleting rows: the referential actions\<close>

text \<open>A nullable key that is set and is one of \<open>ids\<close>.\<close>

definition refers_to :: "uuid option \<Rightarrow> uuid list \<Rightarrow> bool" where
  "refers_to k ids = (case k of None \<Rightarrow> False | Some i \<Rightarrow> i \<in> set ids)"

text \<open>
  \<^verbatim>\<open>ON DELETE CASCADE\<close> on a self reference (\<^verbatim>\<open>projects.parent_id\<close>,
  \<^verbatim>\<open>tasks.parent_task_id\<close>): deleting rows deletes the rows that reference them,
  and so on until no remaining row references a deleted one. \<open>rows\<close> are the
  (id, parent) pairs of the table, \<open>doomed\<close> the ids deleted so far.
\<close>

function cascade_closure :: "(uuid \<times> uuid option) list \<Rightarrow> uuid list \<Rightarrow> uuid list" where
  "cascade_closure rows doomed =
     (let more = filter (\<lambda>i. i \<notin> set doomed)
                   (map fst (filter (\<lambda>r. refers_to (snd r) doomed) rows))
      in if more = [] then doomed else cascade_closure rows (doomed @ more))"
  by pat_completeness auto
termination
proof (relation "measure (\<lambda>(rows, doomed). card (fst ` set rows - set doomed))")
  show "wf (measure (\<lambda>(rows, doomed). card (fst ` set rows - set doomed)))"
    by simp
next
  fix rows :: "(uuid \<times> uuid option) list" and doomed more :: "uuid list"
  assume more: "more = filter (\<lambda>i. i \<notin> set doomed)
                   (map fst (filter (\<lambda>r. refers_to (snd r) doomed) rows))"
    and ne: "more \<noteq> []"
  from ne obtain i where i: "i \<in> set more"
    by (cases more) auto
  with more have "i \<in> fst ` set rows - set doomed" and "i \<in> set (doomed @ more)"
    by auto
  then have "fst ` set rows - set (doomed @ more) \<subset> fst ` set rows - set doomed"
    by auto
  then have "card (fst ` set rows - set (doomed @ more)) < card (fst ` set rows - set doomed)"
    by (intro psubset_card_mono) auto
  then show "((rows, doomed @ more), (rows, doomed))
               \<in> measure (\<lambda>(rows, doomed). card (fst ` set rows - set doomed))"
    by simp
qed

text \<open>
  The same set, as a relation: a row descends from the roots when it is a root or
  its parent descends from them.
\<close>

inductive descends :: "(uuid \<times> uuid option) list \<Rightarrow> uuid list \<Rightarrow> uuid \<Rightarrow> bool"
  for rows :: "(uuid \<times> uuid option) list" and roots :: "uuid list" where
    root: "i \<in> set roots \<Longrightarrow> descends rows roots i"
  | child: "(i, Some p) \<in> set rows \<Longrightarrow> descends rows roots p \<Longrightarrow> descends rows roots i"

code_pred descends .

text \<open>The (id, parent) pairs of the two self-referencing tables.\<close>

definition project_tree :: "db \<Rightarrow> (uuid \<times> uuid option) list" where
  "project_tree d = map (\<lambda>p. (pr_id p, pr_parent_id p)) (projects d)"

definition task_tree :: "db \<Rightarrow> (uuid \<times> uuid option) list" where
  "task_tree d = map (\<lambda>t. (t_id t, t_parent_task_id t)) (tasks d)"

text \<open>
  Deleting tasks: subtasks go with their parent (\<^verbatim>\<open>parent_task_id ... ON DELETE
  CASCADE\<close>); a remaining task whose \<^verbatim>\<open>blocked_by\<close> names a deleted task has it set
  to NULL (\<^verbatim>\<open>ON DELETE SET NULL\<close>), an update of that row, which fires the trigger.
  Referential actions are not subject to row level security.
\<close>

definition task_unblock :: "timestamptz \<Rightarrow> uuid list \<Rightarrow> task \<Rightarrow> task" where
  "task_unblock now doomed t =
     (if refers_to (t_blocked_by t) doomed
      then update_updated_at_column now (t\<lparr>t_blocked_by := None\<rparr>) else t)"

definition tasks_on_delete :: "timestamptz \<Rightarrow> db \<Rightarrow> uuid list \<Rightarrow> db" where
  "tasks_on_delete now d roots =
     (let doomed = cascade_closure (task_tree d) roots
      in d\<lparr>tasks := map (task_unblock now doomed)
                       (filter (\<lambda>t. t_id t \<notin> set doomed) (tasks d))\<rparr>)"

text \<open>
  \<^verbatim>\<open>useDeleteTask\<close>: \<^verbatim>\<open>DELETE FROM tasks WHERE id = i\<close>, rewritten with the policies
  of the catalog, which fails if they recurse; the rows deleted are those the
  SELECT and DELETE policies admit. Deleting no row is not an error, and no
  referential action of this schema can fail.
\<close>

definition useDeleteTask ::
  "policy list \<Rightarrow> uuid \<Rightarrow> timestamptz \<Rightarrow> db \<Rightarrow> uuid \<Rightarrow> pg_error + db \<times> unit" where
  "useDeleteTask pols uid now d i =
     (if policy_recursion pols Delete Tasks [] then Inl Infinite_recursion_in_policy
      else Inr (tasks_on_delete now d
                  (map t_id (filter (\<lambda>t. t_id t = i \<and> tasks_select_using uid d t \<and>
                                         tasks_delete_using uid d t) (tasks d))), ()))"

text \<open>
  Deleting projects: subprojects, shares and sections of a deleted project are
  deleted (\<^verbatim>\<open>ON DELETE CASCADE\<close>); a task keeps its row, with \<^verbatim>\<open>project_id\<close> set to
  NULL when its project is deleted and \<^verbatim>\<open>section_id\<close> set to NULL when its section
  is (\<^verbatim>\<open>ON DELETE SET NULL\<close>, each an update of the row).
\<close>

definition task_set_null :: "timestamptz \<Rightarrow> uuid list \<Rightarrow> uuid list \<Rightarrow> task \<Rightarrow> task" where
  "task_set_null now doomed gone_sections t =
     (let t1 = (if refers_to (t_project_id t) doomed
                then update_updated_at_column now (t\<lparr>t_project_id := None\<rparr>) else t)
      in if refers_to (t_section_id t1) gone_sections
         then update_updated_at_column now (t1\<lparr>t_section_id := None\<rparr>) else t1)"

definition projects_on_delete :: "timestamptz \<Rightarrow> db \<Rightarrow> uuid list \<Rightarrow> db" where
  "projects_on_delete now d roots =
     (let doomed = cascade_closure (project_tree d) roots;
          gone_sections = map se_id (filter (\<lambda>s. se_project_id s \<in> set doomed) (sections d))
      in d\<lparr>projects := filter (\<lambda>p. pr_id p \<notin> set doomed) (projects d),
            project_shares := filter (\<lambda>s. sh_project_id s \<notin> set doomed) (project_shares d),
            sections := filter (\<lambda>s. se_project_id s \<notin> set doomed) (sections d),
            tasks := map (task_set_null now doomed gone_sections) (tasks d)\<rparr>)"

text \<open>
  \<^verbatim>\<open>useDeleteProject\<close>: \<^verbatim>\<open>DELETE FROM projects WHERE id = i\<close>, rewritten with the
  policies of the catalog, which fails if they recurse; the rows deleted are those
  the SELECT and DELETE policies admit.
\<close>

definition useDeleteProject ::
  "policy list \<Rightarrow> uuid \<Rightarrow> timestamptz \<Rightarrow> db \<Rightarrow> uuid \<Rightarrow> pg_error + db \<times> unit" where
  "useDeleteProject pols uid now d i =
     (if policy_recursion pols Delete Projects [] then Inl Infinite_recursion_in_policy
      else Inr (projects_on_delete now d
                  (map pr_id (filter (\<lambda>p. pr_id p = i \<and> projects_select_using uid d p \<and>
                                          projects_delete_using uid p) (projects d))), ()))"

section \<open>Listing tasks\<close>

record UseTasksOptions =
  projectId :: "uuid option"
  sectionId :: "uuid option"
  inbox :: bool
  today :: bool
  upcoming :: bool
  noSection :: bool

text \<open>
  The filter chain of \<^verbatim>\<open>useTasks\<close>; \<open>todayStr\<close> is the current date, and the end of
  the upcoming window the date fourteen days later. A comparison with a NULL
  \<^verbatim>\<open>due_date\<close> selects nothing.
\<close>

definition view_filter :: "UseTasksOptions \<Rightarrow> date \<Rightarrow> task \<Rightarrow> bool" where
  "view_filter opts todayStr t =
     (if inbox opts then t_project_id t = None
      else if sectionId opts \<noteq> None then t_section_id t = sectionId opts
      else if projectId opts \<noteq> None \<and> noSection opts
        then t_project_id t = projectId opts \<and> t_section_id t = None
      else if projectId opts \<noteq> None then t_project_id t = projectId opts
      else if today opts
        then (case t_due_date t of None \<Rightarrow> False | Some due \<Rightarrow> due \<le> todayStr)
      else if upcoming opts
        then (case t_due_date t of None \<Rightarrow> False
              | Some due \<Rightarrow> todayStr < due \<and> due \<le> todayStr + 14)
      else True)"

text \<open>
  The query: the open tasks the SELECT policies admit, filtered by the view and
  ordered by \<^verbatim>\<open>sort_order\<close> (rows with equal keys in table order). The embedded
  \<^verbatim>\<open>project\<close> of each row is not part of the model.
\<close>

definition fetch_tasks :: "uuid \<Rightarrow> db \<Rightarrow> UseTasksOptions \<Rightarrow> date \<Rightarrow> task list" where
  "fetch_tasks uid d opts todayStr =
     sort_key t_sort_order
       (filter (\<lambda>t. tasks_select_using uid d t \<and> t_status t = Open \<and>
                     view_filter opts todayStr t) (tasks d))"

text \<open>
  The assembly mutates objects that are shared between \<^verbatim>\<open>taskMap\<close>, the
  \<^verbatim>\<open>subtasks\<close> arrays and \<^verbatim>\<open>topLevelTasks\<close>, so the model keeps a store: \<^verbatim>\<open>taskMap\<close>
  maps an id to its object, a task row together with its \<^verbatim>\<open>subtasks\<close> array, and an
  array holds references, the keys of the objects in \<^verbatim>\<open>taskMap\<close>.
\<close>

type_synonym task_map = "uuid \<rightharpoonup> task \<times> uuid list"

text \<open>First loop: \<^verbatim>\<open>taskMap.set(task.id, { ...task, subtasks: [] })\<close>.\<close>

fun build_task_map :: "task list \<Rightarrow> task_map \<Rightarrow> task_map" where
  "build_task_map [] taskMap = taskMap"
| "build_task_map (task # rest) taskMap =
     build_task_map rest (taskMap(t_id task \<mapsto> (task, [])))"

text \<open>
  Second loop: a task whose parent is in the map is pushed on the parent's
  \<^verbatim>\<open>subtasks\<close>; one with no parent is pushed on \<^verbatim>\<open>topLevelTasks\<close>; any other task is
  pushed nowhere.
\<close>

fun attach_subtasks :: "task list \<Rightarrow> task_map \<Rightarrow> uuid list \<Rightarrow> uuid list \<times> task_map" where
  "attach_subtasks [] taskMap topLevelTasks = (topLevelTasks, taskMap)"
| "attach_subtasks (task # rest) taskMap topLevelTasks =
     (case t_parent_task_id task of
        Some parent_id \<Rightarrow>
          (case taskMap parent_id of
             Some (parent, subtasks) \<Rightarrow>
               attach_subtasks rest
                 (taskMap(parent_id \<mapsto> (parent, subtasks @ [t_id task]))) topLevelTasks
           | None \<Rightarrow> attach_subtasks rest taskMap topLevelTasks)
      | None \<Rightarrow> attach_subtasks rest taskMap (topLevelTasks @ [t_id task]))"

definition assemble :: "task list \<Rightarrow> uuid list \<times> task_map" where
  "assemble allTasks = attach_subtasks allTasks (build_task_map allTasks Map.empty) []"

definition useTasks ::
  "uuid \<Rightarrow> db \<Rightarrow> UseTasksOptions \<Rightarrow> date \<Rightarrow> uuid list \<times> task_map" where
  "useTasks uid d opts todayStr = assemble (fetch_tasks uid d opts todayStr)"

text \<open>
  What the caller can reach from the returned array: its elements, and the
  elements of the \<^verbatim>\<open>subtasks\<close> array of anything reachable.
\<close>

inductive in_result :: "uuid list \<times> task_map \<Rightarrow> uuid \<Rightarrow> bool"
  for result :: "uuid list \<times> task_map" where
    top_level: "r \<in> set (fst result) \<Longrightarrow> in_result result r"
  | subtask: "in_result result p \<Longrightarrow> snd result p = Some (parent, subtasks) \<Longrightarrow>
              r \<in> set subtasks \<Longrightarrow> in_result result r"

code_pred in_result .

text \<open>
  The query function of \<^verbatim>\<open>useTasks\<close> as a whole: the SELECT, which embeds
  \<^verbatim>\<open>project:projects(id, name, color)\<close>, is rewritten with the policies of the
  catalog, which fails if they recurse and the hook throws; else the rows are
  fetched and assembled.
\<close>

definition useTasks_query ::
  "policy list \<Rightarrow> uuid \<Rightarrow> db \<Rightarrow> UseTasksOptions \<Rightarrow> date \<Rightarrow>
     pg_error + uuid list \<times> task_map" where
  "useTasks_query pols uid d opts todayStr =
     (if policy_recursion pols Select Tasks [Subquery [Projects] []]
      then Inl Infinite_recursion_in_policy
      else Inr (useTasks uid d opts todayStr))"

section \<open>Sharing and the completion invariant\<close>

text \<open>
  No hook grants a share; a grant is a new row of \<^verbatim>\<open>project_shares\<close>. This is the
  table after the insert of \<open>s\<close>.
\<close>

definition insert_project_share :: "db \<Rightarrow> project_share \<Rightarrow> db" where
  "insert_project_share d s = d\<lparr>project_shares := project_shares d @ [s]\<rparr>"


section \<open>Sample data\<close>

text \<open>Rows as an insert with the column defaults leaves them.\<close>

definition new_project :: "uuid \<Rightarrow> uuid \<Rightarrow> uuid option \<Rightarrow> project" where
  "new_project i owner parent =
     \<lparr>pr_id = i, pr_owner_id = owner, pr_parent_id = parent, pr_name = ''p'',
      pr_description = None, pr_color = ''#808080'', pr_sort_order = 0,
      pr_is_archived = False, pr_todoist_id = None, pr_created_at = 0, pr_updated_at = 0\<rparr>"

definition new_share :: "uuid \<Rightarrow> uuid \<Rightarrow> uuid \<Rightarrow> share_permission \<Rightarrow> project_share" where
  "new_share i p u perm =
     \<lparr>sh_id = i, sh_project_id = p, sh_shared_with_user_id = u, sh_permission = perm,
      sh_created_at = 0\<rparr>"

definition new_section :: "uuid \<Rightarrow> uuid \<Rightarrow> section_row" where
  "new_section i p =
     \<lparr>se_id = i, se_project_id = p, se_name = ''s'', se_sort_order = 0,
      se_todoist_id = None, se_created_at = 0\<rparr>"

definition new_task :: "uuid \<Rightarrow> uuid \<Rightarrow> uuid option \<Rightarrow> task" where
  "new_task i owner p =
     \<lparr>t_id = i, t_owner_id = owner, t_project_id = p, t_section_id = None,
      t_parent_task_id = None, t_title = ''t'', t_description = None, t_status = Open,
      t_priority = 0, t_due_date = None, t_due_time = None, t_deadline = None,
      t_recurrence_rule = None, t_recurrence_base_date = None, t_blocked_by = None,
      t_sort_order = 0, t_completed_at = None, t_todoist_id = None, t_created_at = 0,
      t_updated_at = 0\<rparr>"

text \<open>
  User 1 owns the parent project 10 and its child 11; user 2 holds an edit share on
  10 only; user 3 holds nothing. Task 30 is in project 10, task 31 in project 11,
  task 32 in the inbox of user 1.
\<close>

definition shared_db :: db where
  "shared_db =
     \<lparr>projects = [new_project 10 1 None, new_project 11 1 (Some 10)],
      project_shares = [new_share 100 10 2 Edit],
      sections = [new_section 20 10, new_section 21 11],
      tasks = [new_task 30 1 (Some 10), new_task 31 1 (Some 11), new_task 32 1 None]\<rparr>"

text \<open>
  A task of user 1's inbox repeating weekly on Monday and Thursday, anchored at day
  4 (Monday 5 January 1970); day 7 is the following Thursday.
\<close>

definition recurring_task :: task where
  "recurring_task =
     (new_task 50 1 None)\<lparr>t_recurrence_rule := Some ''FREQ=WEEKLY;BYDAY=MO,TH'',
        t_recurrence_base_date := Some 4, t_due_date := Some 4\<rparr>"

definition recurring_db :: db where
  "recurring_db = \<lparr>projects = [], project_shares = [], sections = [], tasks = [recurring_task]\<rparr>"

definition cancelled_task :: task where
  "cancelled_task = (new_task 51 1 None)\<lparr>t_status := Cancelled\<rparr>"

definition cancelled_db :: db where
  "cancelled_db = \<lparr>projects = [], project_shares = [], sections = [], tasks = [cancelled_task]\<rparr>"

text \<open>Task 62 is blocked by 61, which is blocked by 60.\<close>

definition chain_db :: db where
  "chain_db =
     \<lparr>projects = [], project_shares = [], sections = [],
      tasks = [new_task 60 1 None,
               (new_task 61 1 None)\<lparr>t_blocked_by := Some 60\<rparr>,
               (new_task 62 1 None)\<lparr>t_blocked_by := Some 61\<rparr>]\<rparr>"

text \<open>Task 71 is a subtask of 70 and blocked by it; task 72 is only blocked by 70.\<close>

definition subtask_db :: db where
  "subtask_db =
     \<lparr>projects = [], project_shares = [], sections = [],
      tasks = [new_task 70 1 None,
               (new_task 71 1 None)\<lparr>t_parent_task_id := Some 70, t_blocked_by := Some 70\<rparr>,
               (new_task 72 1 None)\<lparr>t_blocked_by := Some 70\<rparr>]\<rparr>"

text \<open>Task 80 is done; its subtask 81 and the unrelated task 82 are open.\<close>

definition done_parent_db :: db where
  "done_parent_db =
     \<lparr>projects = [], project_shares = [], sections = [],
      tasks = [(new_task 80 1 None)\<lparr>t_status := Done, t_completed_at := Some 3\<rparr>,
               (new_task 81 1 None)\<lparr>t_parent_task_id := Some 80\<rparr>,
               new_task 82 1 None]\<rparr>"

definition all_tasks_view :: UseTasksOptions where
  "all_tasks_view =
     \<lparr>projectId = None, sectionId = None, inbox = False, today = False, upcoming = False,
      noSection = False\<rparr>"

text \<open>
  Project 11 is a child of 10 and 12 a child of 11 (owned by user 2); project 13
  is apart. Task 31 is in project 12 and in section 21 of project 11.
\<close>

definition tree_db :: db where
  "tree_db =
     \<lparr>projects = [new_project 10 1 None, new_project 11 1 (Some 10),
                  new_project 12 2 (Some 11), new_project 13 1 None],
      project_shares = [new_share 100 10 2 Edit, new_share 101 13 2 View],
      sections = [new_section 20 10, new_section 21 11, new_section 23 13],
      tasks = [new_task 30 1 (Some 10),
               (new_task 31 2 (Some 12))\<lparr>t_section_id := Some 21\<rparr>,
               new_task 33 1 (Some 13),
               new_task 32 1 None]\<rparr>"


section \<open>Facts used throughout\<close>

declare cascade_closure.simps [simp del]

lemmas policy_defs =
  tasks_select_using_def tasks_update_using_def tasks_update_check_def tasks_delete_using_def
  tasks_insert_check_def sections_select_using_def sections_write_using_def
  view_own_inbox_tasks_def view_tasks_in_accessible_projects_def
  modify_own_tasks_in_projects_def modify_tasks_in_editable_shared_projects_def
  update_own_inbox_tasks_using_def update_own_inbox_tasks_check_def delete_own_inbox_tasks_def
  insert_own_inbox_tasks_def insert_tasks_in_projects_def
  view_sections_of_accessible_projects_def modify_sections_of_editable_projects_def

lemma shared_db_tables:
  "projects shared_db = [new_project 10 1 None, new_project 11 1 (Some 10)]"
  "project_shares shared_db = [new_share 100 10 2 Edit]"
  "sections shared_db = [new_section 20 10, new_section 21 11]"
  "tasks shared_db = [new_task 30 1 (Some 10), new_task 31 1 (Some 11), new_task 32 1 None]"
  by (simp_all add: shared_db_def)

lemma chain_db_tables:
  "projects chain_db = []" "project_shares chain_db = []"
  "tasks chain_db =
     [new_task 60 1 None,
      (new_task 61 1 None)\<lparr>t_blocked_by := Some 60\<rparr>,
      (new_task 62 1 None)\<lparr>t_blocked_by := Some 61\<rparr>]"
  by (simp_all add: chain_db_def)

lemma recurring_db_tables:
  "projects recurring_db = []" "project_shares recurring_db = []"
  "tasks recurring_db = [recurring_task]"
  by (simp_all add: recurring_db_def)

lemma tree_db_tables:
  "projects tree_db = [new_project 10 1 None, new_project 11 1 (Some 10),
                  new_project 12 2 (Some 11), new_project 13 1 None]"
  "sections tree_db = [new_section 20 10, new_section 21 11, new_section 23 13]"
  "tasks tree_db = [new_task 30 1 (Some 10),
               (new_task 31 2 (Some 12))\<lparr>t_section_id := Some 21\<rparr>,
               new_task 33 1 (Some 13),
               new_task 32 1 None]"
  by (simp_all add: tree_db_def)

lemma subtask_db_tasks:
  "tasks subtask_db =
     [new_task 70 1 None,
      (new_task 71 1 None)\<lparr>t_parent_task_id := Some 70, t_blocked_by := Some 70\<rparr>,
      (new_task 72 1 None)\<lparr>t_blocked_by := Some 70\<rparr>]"
  by (simp add: subtask_db_def)

lemma done_parent_db_tables:
  "projects done_parent_db = []" "project_shares done_parent_db = []"
  "tasks done_parent_db =
     [(new_task 80 1 None)\<lparr>t_status := Done, t_completed_at := Some 3\<rparr>,
      (new_task 81 1 None)\<lparr>t_parent_task_id := Some 80\<rparr>,
      new_task 82 1 None]"
  by (simp_all add: done_parent_db_def)

section \<open>The policies of the schema recurse\<close>

text \<open>
  The policy \<^verbatim>\<open>Users can view shared projects\<close> of \<^verbatim>\<open>projects\<close> reads
  \<^verbatim>\<open>project_shares\<close>, whose policy \<^verbatim>\<open>Owners can manage shares\<close> reads \<^verbatim>\<open>projects\<close>
  and whose policy \<^verbatim>\<open>Admins can manage shares\<close> reads \<^verbatim>\<open>project_shares\<close> itself. So
  the rewriting of a subquery on \<^verbatim>\<open>project_shares\<close> meets a table already on the
  list, and so does every statement on \<^verbatim>\<open>tasks\<close> and every DELETE on \<^verbatim>\<open>projects\<close>.
\<close>

lemma security_quals_policies:
  "security_quals policies Select Projects = [Subquery [Project_shares] []]"
  "security_quals policies Select Project_shares =
     [Subquery [Projects] [], Subquery [Project_shares] []]"
  "security_quals policies Select Tasks = [project_with_share, project_with_share]"
  "security_quals policies Update Tasks =
     [project_with_share, project_with_share, project_with_share]"
  "security_quals policies Insert Tasks =
     [project_with_share, project_with_share, project_with_share]"
  "security_quals policies Delete Tasks = [project_with_share, project_with_share]"
  "security_quals policies Delete Projects = [Subquery [Project_shares] []]"
  by (simp_all add: security_quals_def policies_def)

lemma project_shares_recursion:
  "recursion_detected policies activeRIRs (Subquery [Project_shares] [])"
  by (simp add: security_quals_policies)

lemma policies_recursion:
  "policy_recursion policies Select Tasks embedded"
  "policy_recursion policies Update Tasks embedded"
  "policy_recursion policies Insert Tasks embedded"
  "policy_recursion policies Delete Tasks embedded"
  "policy_recursion policies Delete Projects embedded"
  by (simp_all add: policy_recursion_def security_quals_policies project_with_share_def)

text \<open>
  With the policies of the schema every hook that reads or writes \<^verbatim>\<open>tasks\<close>, and
  the hook that deletes a project, throws for every signed-in user and every
  input.
\<close>

lemma hooks_stopped_by_recursion:
  "useTask Resolved policies uid d (Some i) = Inl Infinite_recursion_in_policy"
  "useTasks_query policies uid d opts todayStr = Inl Infinite_recursion_in_policy"
  "useUpdateTask policies uid now d i inp = Inl Infinite_recursion_in_policy"
  "useCompleteTask policies uid clock now d i = Inl Infinite_recursion_in_policy"
  "useUncompleteTask policies uid now d i = Inl Infinite_recursion_in_policy"
  "useCreateTask policies (Some uid) new_id now d cinp = Inl Infinite_recursion_in_policy"
  "useDeleteTask policies uid now d i = Inl Infinite_recursion_in_policy"
  "useDeleteProject policies uid now d i = Inl Infinite_recursion_in_policy"
  by (simp_all add: useTask_def useTasks_query_def useUpdateTask_def useCompleteTask_def
      useUncompleteTask_def sql_update_tasks_def single_def useCreateTask_def
      useDeleteTask_def useDeleteProject_def policies_recursion)

text \<open>
  The recursion comes from the policies of \<^verbatim>\<open>project_shares\<close>: the other policies
  alone do not recurse, and neither does a catalog whose policies have no subquery.
\<close>

lemma other_policies_no_recursion:
  "\<not> policy_recursion (filter (\<lambda>p. pol_table p \<noteq> Project_shares) policies) Update Tasks []"
  by (simp add: policy_recursion_def security_quals_def policies_def project_with_share_def)


lemma no_sublinks_no_recursion:
  assumes "\<forall>p\<in>set pols. pol_sublinks p = []"
  shows "\<not> policy_recursion pols cmd rel []"
proof -
  have "security_quals pols cmd rel = []"
    using assms by (auto simp: security_quals_def)
  then show ?thesis
    by (simp add: policy_recursion_def)
qed

section \<open>Read access\<close>

lemma find_distinct_id:
  assumes "distinct (map pr_id ps)" and "p \<in> set ps"
  shows "find (\<lambda>q. pr_id q = pr_id p) ps = Some p"
  using assms
proof (induction ps)
  case Nil
  then show ?case by simp
next
  case (Cons q qs)
  show ?case
  proof (cases "q = p")
    case True
    then show ?thesis by simp
  next
    case False
    with Cons.prems have "p \<in> set qs" and "pr_id q \<noteq> pr_id p"
      by force+
    with Cons show ?thesis by simp
  qed
qed

lemma resolve_iff:
  assumes "distinct (map pr_id (projects d))"
  shows "resolve u d pid \<noteq> NoAccess \<longleftrightarrow>
         (\<exists>p\<in>set (projects d). pr_id p = pid \<and>
            (pr_owner_id p = u \<or>
             (\<exists>sh\<in>set (project_shares d).
                sh_project_id sh = pr_id p \<and> sh_shared_with_user_id sh = u)))"
proof (cases "find (\<lambda>p. pr_id p = pid) (projects d)")
  case None
  then have "\<forall>p\<in>set (projects d). pr_id p \<noteq> pid"
    by (simp add: find_None_iff)
  with None show ?thesis
    by (auto simp: resolve_def)
next
  case (Some p)
  then have p: "p \<in> set (projects d)" "pr_id p = pid"
    by (auto simp: find_Some_iff in_set_conv_nth)
  have only: "q = p" if "q \<in> set (projects d)" "pr_id q = pid" for q
    using find_distinct_id [OF assms that(1)] that(2) Some by simp
  have share: "(find (\<lambda>s. sh_project_id s = pid \<and> sh_shared_with_user_id s = u)
                  (project_shares d) \<noteq> None) =
               (\<exists>sh\<in>set (project_shares d).
                  sh_project_id sh = pid \<and> sh_shared_with_user_id sh = u)"
    by (auto simp: find_None_iff)
  show ?thesis
  proof (cases "u = pr_owner_id p")
    case True
    with Some p show ?thesis
      by (auto simp: resolve_def)
  next
    case False
    have "resolve u d pid \<noteq> NoAccess \<longleftrightarrow>
          (\<exists>sh\<in>set (project_shares d). sh_project_id sh = pid \<and> sh_shared_with_user_id sh = u)"
      using Some False share by (auto simp: resolve_def split: option.splits)
    also have "\<dots> \<longleftrightarrow> (\<exists>q\<in>set (projects d). pr_id q = pid \<and>
            (pr_owner_id q = u \<or>
             (\<exists>sh\<in>set (project_shares d).
                sh_project_id sh = pr_id q \<and> sh_shared_with_user_id sh = u)))"
    proof
      assume "\<exists>sh\<in>set (project_shares d). sh_project_id sh = pid \<and> sh_shared_with_user_id sh = u"
      with p show "\<exists>q\<in>set (projects d). pr_id q = pid \<and>
            (pr_owner_id q = u \<or>
             (\<exists>sh\<in>set (project_shares d).
                sh_project_id sh = pr_id q \<and> sh_shared_with_user_id sh = u))"
        by auto
    next
      assume "\<exists>q\<in>set (projects d). pr_id q = pid \<and>
            (pr_owner_id q = u \<or>
             (\<exists>sh\<in>set (project_shares d).
                sh_project_id sh = pr_id q \<and> sh_shared_with_user_id sh = u))"
      then obtain q where q: "q \<in> set (projects d)" "pr_id q = pid"
        and acc: "pr_owner_id q = u \<or>
             (\<exists>sh\<in>set (project_shares d).
                sh_project_id sh = pr_id q \<and> sh_shared_with_user_id sh = u)"
        by blast
      from only [OF q] have "q = p" .
      with acc False q
      show "\<exists>sh\<in>set (project_shares d). sh_project_id sh = pid \<and> sh_shared_with_user_id sh = u"
        by auto
    qed
    finally show ?thesis .
  qed
qed

text \<open>
  The expression that the SELECT policies of \<^verbatim>\<open>tasks\<close> put on a row is the rule of
  the specification: it admits the row exactly when the task has no project and
  the user is its owner, or the task has a project on which the user's resolved
  permission is not none. Project ids are the primary key of \<^verbatim>\<open>projects\<close>.
\<close>

lemma tasks_select_using_iff_canRead:
  assumes "distinct (map pr_id (projects d))"
  shows "tasks_select_using u d t \<longleftrightarrow> canRead u d t"
proof (cases "t_project_id t")
  case None
  then show ?thesis
    by (simp add: tasks_select_using_def canRead_def view_own_inbox_tasks_def
        view_tasks_in_accessible_projects_def modify_own_tasks_in_projects_def)
next
  case (Some pid)
  have "tasks_select_using u d t \<longleftrightarrow>
        (\<exists>p\<in>set (projects d). pr_id p = pid \<and>
            (pr_owner_id p = u \<or>
             (\<exists>sh\<in>set (project_shares d).
                sh_project_id sh = pr_id p \<and> sh_shared_with_user_id sh = u)))"
    using Some
    by (auto simp: tasks_select_using_def view_own_inbox_tasks_def
        view_tasks_in_accessible_projects_def modify_own_tasks_in_projects_def)
  also have "\<dots> \<longleftrightarrow> resolve u d pid \<noteq> NoAccess"
    using resolve_iff [OF assms] by simp
  finally show ?thesis
    using Some by (simp add: canRead_def)
qed

text \<open>
  C1. A read of \<^verbatim>\<open>tasks\<close> does not follow the rule. In the sample data user 1 owns
  the inbox task 32, so the rule lets user 1 read it, and the expression of the
  SELECT policies admits the row. But the statement of \<^verbatim>\<open>useTask\<close> is stopped before
  it reads a row, by the ambiguous embedding or else by the recursion of the
  policies, and the query of \<^verbatim>\<open>useTasks\<close> by the recursion of the policies: the
  owner reads nothing.
\<close>

theorem owner_read_of_inbox_task_fails:
  "new_task 32 1 None \<in> set (tasks shared_db) \<and>
   canRead 1 shared_db (new_task 32 1 None) \<and>
   tasks_select_using 1 shared_db (new_task 32 1 None) \<and>
   useTask Resolved policies 1 shared_db (Some 32) = Inl Infinite_recursion_in_policy \<and>
   useTask Ambiguous policies 1 shared_db (Some 32) = Inl PGRST201 \<and>
   useTasks_query policies 1 shared_db all_tasks_view 0 = Inl Infinite_recursion_in_policy"
proof -
  have a: "new_task 32 1 None \<in> set (tasks shared_db)"
    by (simp add: shared_db_tables)
  have b: "canRead 1 shared_db (new_task 32 1 None)"
    by (simp add: canRead_def new_task_def)
  have c: "tasks_select_using 1 shared_db (new_task 32 1 None)"
    by (simp add: tasks_select_using_def view_own_inbox_tasks_def new_task_def)
  have d: "useTask Resolved policies 1 shared_db (Some 32) = Inl Infinite_recursion_in_policy"
    by (simp add: useTask_def policies_recursion)
  have e: "useTask Ambiguous policies 1 shared_db (Some 32) = Inl PGRST201"
    by (simp add: useTask_def)
  have f: "useTasks_query policies 1 shared_db all_tasks_view 0 = Inl Infinite_recursion_in_policy"
    by (simp add: useTasks_query_def policies_recursion)
  from a b c d e f show ?thesis
    by blast
qed

section \<open>A hidden task reads as an absent one\<close>

text \<open>
  C2. When a task with id \<open>i\<close> exists but the SELECT policies hide every row with
  that id from the user, \<^verbatim>\<open>useTask\<close> gives the caller what it gives on a database
  with no task of that id at all, and that is an error, never a row: whether the
  request fails on its embedding, the statement on the recursion of the policies,
  or \<^verbatim>\<open>.single()\<close> on zero rows, it does so in both runs alike.
\<close>

theorem useTask_hidden_as_absent:
  assumes "\<exists>t\<in>set (tasks d1). t_id t = i"
    and "\<forall>t\<in>set (tasks d1). t_id t = i \<longrightarrow> \<not> tasks_select_using uid d1 t"
    and "\<forall>t\<in>set (tasks d2). t_id t \<noteq> i"
  shows "useTask emb pols uid d1 (Some i) = useTask emb pols uid d2 (Some i) \<and>
         isl (useTask emb pols uid d1 (Some i))"
proof -
  from assms(2) have "filter (\<lambda>t. tasks_select_using uid d1 t \<and> t_id t = i) (tasks d1) = []"
    by (auto simp: filter_empty_conv)
  moreover from assms(3)
  have "filter (\<lambda>t. tasks_select_using uid d2 t \<and> t_id t = i) (tasks d2) = []"
    by (auto simp: filter_empty_conv)
  ultimately show ?thesis
    by (simp add: useTask_def)
qed

text \<open>
  User 3 reading the inbox task 32 of user 1, and reading the same id on a database
  with no tasks: with the policies of the schema both reads fail on the recursion.
\<close>

theorem useTask_hidden_as_absent_witness:
  "useTask Resolved policies 3 shared_db (Some 32) =
     useTask Resolved policies 3 (shared_db\<lparr>tasks := []\<rparr>) (Some 32) \<and>
   isl (useTask Resolved policies 3 shared_db (Some 32)) \<and>
   useTask Resolved policies 3 shared_db (Some 32) = Inl Infinite_recursion_in_policy"
proof -
  have e: "\<exists>t\<in>set (tasks shared_db). t_id t = 32"
    by (simp add: shared_db_def new_task_def)
  have h: "\<forall>t\<in>set (tasks shared_db). t_id t = 32 \<longrightarrow> \<not> tasks_select_using 3 shared_db t"
    by (simp add: policy_defs shared_db_def new_project_def new_share_def new_task_def)
  have a: "\<forall>t\<in>set (tasks (shared_db\<lparr>tasks := []\<rparr>)). t_id t \<noteq> 32"
    by simp
  have v: "useTask Resolved policies 3 shared_db (Some 32) = Inl Infinite_recursion_in_policy"
    by (simp add: useTask_def policies_recursion)
  from useTask_hidden_as_absent [OF e h a, of Resolved policies] v show ?thesis
    by blast
qed

section \<open>Shares are per project\<close>

lemma share_elsewhere_task:
  assumes "sh_project_id s \<noteq> c" and "t_project_id t = Some c"
  shows "view_tasks_in_accessible_projects u (insert_project_share d s) t =
           view_tasks_in_accessible_projects u d t"
    and "modify_own_tasks_in_projects u (insert_project_share d s) t =
           modify_own_tasks_in_projects u d t"
    and "modify_tasks_in_editable_shared_projects u (insert_project_share d s) t =
           modify_tasks_in_editable_shared_projects u d t"
    and "insert_tasks_in_projects u (insert_project_share d s) t =
           insert_tasks_in_projects u d t"
  using assms
  by (auto simp: insert_project_share_def view_tasks_in_accessible_projects_def
      modify_own_tasks_in_projects_def modify_tasks_in_editable_shared_projects_def
      insert_tasks_in_projects_def)

lemma share_elsewhere_section:
  assumes "sh_project_id s \<noteq> se_project_id sec"
  shows "view_sections_of_accessible_projects u (insert_project_share d s) sec =
           view_sections_of_accessible_projects u d sec"
    and "modify_sections_of_editable_projects u (insert_project_share d s) sec =
           modify_sections_of_editable_projects u d sec"
  using assms
  by (auto simp: insert_project_share_def view_sections_of_accessible_projects_def
      modify_sections_of_editable_projects_def)

text \<open>
  C5. A share row granted on a project \<open>P\<close> (to any user, with any permission)
  changes no user's read or write access to a task or a section of another
  project \<open>c\<close>, in particular of a child of \<open>P\<close>: every policy on a row of \<open>c\<close>
  looks at the owner and the shares of \<open>c\<close> alone. A project differs from its
  parent.
\<close>

theorem share_on_parent_not_inherited:
  assumes "sh_project_id s \<noteq> c"
    and "t_project_id t = Some c"
    and "se_project_id sec = c"
  shows "tasks_select_using u (insert_project_share d s) t = tasks_select_using u d t \<and>
         tasks_insert_check u (insert_project_share d s) t = tasks_insert_check u d t \<and>
         tasks_update_using u (insert_project_share d s) t = tasks_update_using u d t \<and>
         tasks_update_check u (insert_project_share d s) t = tasks_update_check u d t \<and>
         tasks_delete_using u (insert_project_share d s) t = tasks_delete_using u d t \<and>
         sections_select_using u (insert_project_share d s) sec = sections_select_using u d sec \<and>
         sections_write_using u (insert_project_share d s) sec = sections_write_using u d sec"
proof -
  from assms(1,3) have sec: "sh_project_id s \<noteq> se_project_id sec"
    by simp
  show ?thesis
    unfolding tasks_select_using_def tasks_insert_check_def tasks_update_using_def
      tasks_update_check_def tasks_delete_using_def sections_select_using_def
      sections_write_using_def
    by (simp add: share_elsewhere_task [OF assms(1,2)] share_elsewhere_section [OF sec])
qed

text \<open>
  User 3 is granted edit on project 10, the parent of project 11: task 30 of the
  parent becomes readable, task 31 and section 21 of the child stay closed.
\<close>

theorem share_on_parent_not_inherited_witness:
  "pr_parent_id (new_project 11 1 (Some 10)) = Some 10 \<and>
   tasks_select_using 3 (insert_project_share shared_db (new_share 101 10 3 Edit))
     (new_task 30 1 (Some 10)) \<and>
   \<not> tasks_select_using 3 (insert_project_share shared_db (new_share 101 10 3 Edit))
     (new_task 31 1 (Some 11)) \<and>
   \<not> tasks_update_using 3 (insert_project_share shared_db (new_share 101 10 3 Edit))
     (new_task 31 1 (Some 11)) \<and>
   \<not> tasks_delete_using 3 (insert_project_share shared_db (new_share 101 10 3 Edit))
     (new_task 31 1 (Some 11)) \<and>
   \<not> sections_select_using 3 (insert_project_share shared_db (new_share 101 10 3 Edit))
     (new_section 21 11) \<and>
   \<not> sections_write_using 3 (insert_project_share shared_db (new_share 101 10 3 Edit))
     (new_section 21 11)"
proof -
  have 1: "sh_project_id (new_share 101 10 3 Edit) \<noteq> 11"
    by (simp add: new_share_def)
  have 2: "t_project_id (new_task 31 1 (Some 11)) = Some 11"
    by (simp add: new_task_def)
  have 3: "se_project_id (new_section 21 11) = 11"
    by (simp add: new_section_def)
  have before: "\<not> tasks_select_using 3 shared_db (new_task 31 1 (Some 11))"
    "\<not> tasks_update_using 3 shared_db (new_task 31 1 (Some 11))"
    "\<not> tasks_delete_using 3 shared_db (new_task 31 1 (Some 11))"
    "\<not> sections_select_using 3 shared_db (new_section 21 11)"
    "\<not> sections_write_using 3 shared_db (new_section 21 11)"
    by (simp_all add: policy_defs shared_db_def new_project_def new_share_def new_task_def
        new_section_def)
  have parent: "tasks_select_using 3 (insert_project_share shared_db (new_share 101 10 3 Edit))
     (new_task 30 1 (Some 10))"
    by (simp add: policy_defs insert_project_share_def shared_db_def new_project_def
        new_share_def new_task_def)
  from share_on_parent_not_inherited [OF 1 2 3, of 3 shared_db] before parent show ?thesis
    by (simp add: new_project_def)
qed

section \<open>Updating one task\<close>

text \<open>
  A row the UPDATE policies admit is a row the SELECT policies admit, and a new row
  with the same owner and project passes the checks.
\<close>

lemma update_using_imp_select:
  "tasks_update_using uid d t \<Longrightarrow> tasks_select_using uid d t"
  by (auto simp: tasks_update_using_def tasks_select_using_def update_own_inbox_tasks_using_def
      view_own_inbox_tasks_def modify_tasks_in_editable_shared_projects_def
      view_tasks_in_accessible_projects_def)

lemma update_using_same_owner_project:
  assumes "tasks_update_using uid d t"
    and "t_owner_id n = t_owner_id t" and "t_project_id n = t_project_id t"
  shows "tasks_update_using uid d n"
  using assms
  by (simp add: tasks_update_using_def update_own_inbox_tasks_using_def
      modify_own_tasks_in_projects_def modify_tasks_in_editable_shared_projects_def)

lemma update_using_imp_check:
  "tasks_update_using uid d t \<Longrightarrow> tasks_update_check uid d t"
  by (auto simp: tasks_update_using_def tasks_update_check_def update_own_inbox_tasks_using_def
      update_own_inbox_tasks_check_def)

lemma filter_id_distinct:
  assumes "distinct (map t_id ts)" and "t \<in> set ts" and "P t"
  shows "filter (\<lambda>x. t_id x = t_id t \<and> P x) ts = [t]"
  using assms
proof (induction ts)
  case Nil
  then show ?case by simp
next
  case (Cons x xs)
  show ?case
  proof (cases "x = t")
    case True
    with Cons.prems have "t_id t \<notin> t_id ` set xs"
      by simp
    then have "\<forall>y\<in>set xs. t_id y \<noteq> t_id t"
      by (metis imageI)
    then have "filter (\<lambda>x. t_id x = t_id t \<and> P x) xs = []"
      by (auto simp: filter_empty_conv)
    with True Cons.prems show ?thesis by simp
  next
    case False
    with Cons.prems have "t \<in> set xs" and "t_id x \<noteq> t_id t"
      by force+
    with Cons show ?thesis by simp
  qed
qed

lemma map_if_id_distinct:
  assumes "distinct (map t_id ts)" and "t \<in> set ts" and "P t"
  shows "map (\<lambda>x. if t_id x = t_id t \<and> P x then f x else x) ts =
         map (\<lambda>x. if t_id x = t_id t then f x else x) ts"
proof (rule map_cong [OF refl])
  fix x assume x: "x \<in> set ts"
  show "(if t_id x = t_id t \<and> P x then f x else x) = (if t_id x = t_id t then f x else x)"
  proof (cases "t_id x = t_id t")
    case True
    with assms x have "x = t"
      by (meson distinct_map inj_onD)
    with assms True show ?thesis by simp
  next
    case False
    then show ?thesis by simp
  qed
qed

text \<open>
  The execution of the UPDATE on a table with unique ids, for a row the acting user
  may update and a new row that passes every check: that row is replaced, no other
  row is touched, and the new row is returned.
\<close>

lemma execute_update_tasks_single_row:
  assumes ids: "distinct (map t_id (tasks d))"
    and t: "t \<in> set (tasks d)" "t_id t = i"
    and pol: "tasks_update_using uid d t"
    and n: "n = update_updated_at_column now (set_columns inp t)"
    and check: "tasks_update_check uid d n" "tasks_select_using uid d n"
    and cst: "priority_check n" "tasks_foreign_keys d t n"
  shows "single (execute_update_tasks uid now d i inp) =
         Inr (d\<lparr>tasks := map (\<lambda>x. if t_id x = i
                                     then update_updated_at_column now (set_columns inp x)
                                     else x) (tasks d)\<rparr>, n)"
proof -
  let ?P = "\<lambda>x. tasks_select_using uid d x \<and> tasks_update_using uid d x"
  have P: "?P t"
    using pol update_using_imp_select by blast
  have rows: "filter (\<lambda>x. t_id x = i \<and> ?P x) (tasks d) = [t]"
    using filter_id_distinct [OF ids t(1), of ?P] P t(2) by simp
  have upd: "map (\<lambda>x. if t_id x = i \<and> ?P x
                       then update_updated_at_column now (set_columns inp x) else x) (tasks d) =
             map (\<lambda>x. if t_id x = i
                       then update_updated_at_column now (set_columns inp x) else x) (tasks d)"
    using map_if_id_distinct [OF ids t(1), of ?P "\<lambda>x. update_updated_at_column now (set_columns inp x)"]
      P t(2) by simp
  show ?thesis
    unfolding execute_update_tasks_def Let_def rows upd
    using check cst n by (simp add: single_def)
qed

text \<open>A hook that updates throws the error of the recursion or gives what the execution gives.\<close>

lemma useUpdateTask_rewritten:
  "useUpdateTask pols uid now d i inp =
     (if policy_recursion pols Update Tasks [] then Inl Infinite_recursion_in_policy
      else single (execute_update_tasks uid now d i inp))"
  by (simp add: useUpdateTask_def sql_update_tasks_def single_def)

lemma set_columns_complete:
  "update_updated_at_column now
     (set_columns (no_columns\<lparr>u_status := Some Done, u_completed_at := Some (Some clock)\<rparr>) x) =
   x\<lparr>t_status := Done, t_completed_at := Some clock, t_updated_at := now\<rparr>"
  by (simp add: set_columns_def no_columns_def update_updated_at_column_def)


lemma set_columns_blocked_by:
  "update_updated_at_column now (set_columns (no_columns\<lparr>u_blocked_by := Some b\<rparr>) x) =
   x\<lparr>t_blocked_by := b, t_updated_at := now\<rparr>"
  by (simp add: set_columns_def no_columns_def update_updated_at_column_def)

lemma useCompleteTask_row:
  assumes ids: "distinct (map t_id (tasks d))"
    and t: "t \<in> set (tasks d)" "t_id t = i"
    and pol: "tasks_update_using uid d t"
    and prio: "priority_check t"
  shows "useCompleteTask pols uid clock now d i =
         (if policy_recursion pols Update Tasks [] then Inl Infinite_recursion_in_policy
          else Inr (d\<lparr>tasks := map (\<lambda>x. if t_id x = i
                                          then x\<lparr>t_status := Done, t_completed_at := Some clock,
                                                 t_updated_at := now\<rparr>
                                          else x) (tasks d)\<rparr>,
                    t\<lparr>t_status := Done, t_completed_at := Some clock, t_updated_at := now\<rparr>))"
proof -
  let ?n = "t\<lparr>t_status := Done, t_completed_at := Some clock, t_updated_at := now\<rparr>"
  have poln: "tasks_update_using uid d ?n"
    using update_using_same_owner_project [OF pol, of ?n] by simp
  have "single (execute_update_tasks uid now d i
          (no_columns\<lparr>u_status := Some Done, u_completed_at := Some (Some clock)\<rparr>)) =
        Inr (d\<lparr>tasks := map (\<lambda>x. if t_id x = i
            then update_updated_at_column now (set_columns
              (no_columns\<lparr>u_status := Some Done, u_completed_at := Some (Some clock)\<rparr>) x)
            else x) (tasks d)\<rparr>, ?n)"
  proof (rule execute_update_tasks_single_row [OF ids t pol])
    show "?n = update_updated_at_column now (set_columns
              (no_columns\<lparr>u_status := Some Done, u_completed_at := Some (Some clock)\<rparr>) t)"
      by (simp add: set_columns_complete)
    show "tasks_update_check uid d ?n"
      using poln by (rule update_using_imp_check)
    show "tasks_select_using uid d ?n"
      using poln by (rule update_using_imp_select)
    show "priority_check ?n"
      using prio by (simp add: priority_check_def)
    show "tasks_foreign_keys d t ?n"
      by (simp add: tasks_foreign_keys_def)
  qed
  then have "useUpdateTask pols uid now d i
               (no_columns\<lparr>u_status := Some Done, u_completed_at := Some (Some clock)\<rparr>) =
         (if policy_recursion pols Update Tasks [] then Inl Infinite_recursion_in_policy
          else Inr (d\<lparr>tasks := map (\<lambda>x. if t_id x = i
                                          then x\<lparr>t_status := Done, t_completed_at := Some clock,
                                                 t_updated_at := now\<rparr>
                                          else x) (tasks d)\<rparr>, ?n))"
    unfolding useUpdateTask_rewritten by (simp add: set_columns_complete)
  then show ?thesis
    by (simp add: useCompleteTask_def useUpdateTask_def)
qed

section \<open>Completing a task\<close>

text \<open>
  C3 (amended). Completing a task the acting user may update, recurring or not,
  creates no task: the table has the same ids after the call as before it. Unless
  the database rejects the statement while it expands the policies, and then the
  hook throws and nothing is written, the hook leaves that row done with
  \<^verbatim>\<open>completed_at\<close> the client's time and \<^verbatim>\<open>updated_at\<close> the server's; every other
  column of the row and every other row are as before. The hook creates no
  successor.
\<close>

theorem useCompleteTask_no_successor:
  assumes "distinct (map t_id (tasks d))"
    and "t \<in> set (tasks d)" and "t_id t = i"
    and "tasks_update_using uid d t"
    and "priority_check t"
  shows "useCompleteTask pols uid clock now d i =
         (if policy_recursion pols Update Tasks [] then Inl Infinite_recursion_in_policy
          else Inr (d\<lparr>tasks := map (\<lambda>x. if t_id x = i
                                          then x\<lparr>t_status := Done, t_completed_at := Some clock,
                                                 t_updated_at := now\<rparr>
                                          else x) (tasks d)\<rparr>,
                    t\<lparr>t_status := Done, t_completed_at := Some clock, t_updated_at := now\<rparr>)) \<and>
         map t_id (tasks (db_after d (useCompleteTask pols uid clock now d i))) =
           map t_id (tasks d)"
proof -
  have "map (t_id \<circ> (\<lambda>x. if t_id x = i
                           then x\<lparr>t_status := Done, t_completed_at := Some clock,
                                  t_updated_at := now\<rparr>
                           else x)) (tasks d) = map t_id (tasks d)"
    by (rule map_cong) simp_all
  with useCompleteTask_row [OF assms, of pols clock now] show ?thesis
    by (simp add: db_after_def)
qed

text \<open>
  User 2, who holds an edit share on project 10, completes task 30: with the
  policies of the schema the statement is rejected and the table is as before.
\<close>

theorem useCompleteTask_no_successor_witness:
  "tasks_update_using 2 shared_db (new_task 30 1 (Some 10)) \<and>
   useCompleteTask policies 2 7 8 shared_db 30 = Inl Infinite_recursion_in_policy \<and>
   tasks (db_after shared_db (useCompleteTask policies 2 7 8 shared_db 30)) =
     [new_task 30 1 (Some 10), new_task 31 1 (Some 11), new_task 32 1 None]"
proof -
  have ids: "distinct (map t_id (tasks shared_db))"
    by (simp add: shared_db_tables new_task_def)
  have t: "new_task 30 1 (Some 10) \<in> set (tasks shared_db)" "t_id (new_task 30 1 (Some 10)) = 30"
    by (simp_all add: shared_db_tables new_task_def)
  have pol: "tasks_update_using 2 shared_db (new_task 30 1 (Some 10))"
    by (simp add: policy_defs shared_db_tables new_project_def new_share_def new_task_def)
  have prio: "priority_check (new_task 30 1 (Some 10))"
    by (simp add: priority_check_def new_task_def)
  have r: "useCompleteTask policies 2 7 8 shared_db 30 = Inl Infinite_recursion_in_policy"
    using useCompleteTask_no_successor [OF ids t pol prio, of policies 7 8]
    by (simp only: policies_recursion if_True)
  from r pol show ?thesis
    by (simp add: db_after_def shared_db_tables)
qed

text \<open>
  The claim as stated fails: the task repeating on Monday and Thursday, anchored
  and due on Monday (day 4), is completed; the hook throws, and the table
  afterwards holds that one row, still open, and no task due on Thursday.
\<close>

theorem useCompleteTask_recurring_counterexample:
  "useCompleteTask policies 1 7 8 recurring_db 50 = Inl Infinite_recursion_in_policy \<and>
   tasks (db_after recurring_db (useCompleteTask policies 1 7 8 recurring_db 50)) =
     [recurring_task] \<and>
   t_status recurring_task = Open \<and> t_due_date recurring_task = Some 4"
  by (simp add: hooks_stopped_by_recursion db_after_def recurring_db_tables recurring_task_def
      new_task_def)

text \<open>
  C8 (amended). Completing a cancelled task the acting user may update is not
  refused for its status, which the hook never reads. Unless the database rejects
  the statement while it expands the policies, and then the hook throws and nothing
  is written, the task is stored and returned done, with its completion timestamp
  set, and no other row changes.
\<close>

theorem useCompleteTask_cancelled:
  assumes "distinct (map t_id (tasks d))"
    and "t \<in> set (tasks d)" and "t_id t = i"
    and "tasks_update_using uid d t"
    and "priority_check t"
    and "t_status t = Cancelled"
  shows "useCompleteTask pols uid clock now d i =
         (if policy_recursion pols Update Tasks [] then Inl Infinite_recursion_in_policy
          else Inr (d\<lparr>tasks := map (\<lambda>x. if t_id x = i
                                          then x\<lparr>t_status := Done, t_completed_at := Some clock,
                                                 t_updated_at := now\<rparr>
                                          else x) (tasks d)\<rparr>,
                    t\<lparr>t_status := Done, t_completed_at := Some clock, t_updated_at := now\<rparr>))"
  using assms(1-5) by (rule useCompleteTask_row)

text \<open>
  User 2 completes the cancelled task 30 of the shared project: with the policies
  of the schema the statement is rejected and the task is still cancelled.
\<close>

theorem useCompleteTask_cancelled_witness:
  "t_status ((new_task 30 1 (Some 10))\<lparr>t_status := Cancelled\<rparr>) = Cancelled \<and>
   useCompleteTask policies 2 7 8
     (shared_db\<lparr>tasks := [(new_task 30 1 (Some 10))\<lparr>t_status := Cancelled\<rparr>]\<rparr>) 30 =
     Inl Infinite_recursion_in_policy"
proof -
  let ?t = "(new_task 30 1 (Some 10))\<lparr>t_status := Cancelled\<rparr>"
  let ?d = "shared_db\<lparr>tasks := [?t]\<rparr>"
  have ids: "distinct (map t_id (tasks ?d))"
    by simp
  have t: "?t \<in> set (tasks ?d)" "t_id ?t = 30"
    by (simp_all add: new_task_def)
  have pol: "tasks_update_using 2 ?d ?t"
    by (simp add: policy_defs shared_db_tables new_project_def new_share_def new_task_def)
  have prio: "priority_check ?t"
    by (simp add: priority_check_def new_task_def)
  have c: "t_status ?t = Cancelled"
    by simp
  from useCompleteTask_cancelled [OF ids t pol prio c, of policies 7 8] c show ?thesis
    by (simp add: policies_recursion)
qed

text \<open>
  The claim as stated fails: completing the cancelled inbox task 51 fails, but with
  the error that completing the same task fails with when it is open.
\<close>

theorem useCompleteTask_cancelled_counterexample:
  "t_status cancelled_task = Cancelled \<and>
   useCompleteTask policies 1 7 8 cancelled_db 51 = Inl Infinite_recursion_in_policy \<and>
   useCompleteTask policies 1 7 8 (cancelled_db\<lparr>tasks := [new_task 51 1 None]\<rparr>) 51 =
     Inl Infinite_recursion_in_policy"
  by (simp add: hooks_stopped_by_recursion cancelled_task_def)

section \<open>Status and completion timestamp\<close>












section \<open>Setting the predecessor\<close>

text \<open>
  C4 (amended). An update that sets the predecessor of a task the acting user may
  update to an existing task is not checked for a cycle: nothing walks the chain of
  that task. Unless the database rejects the statement while it expands the
  policies, and then the hook throws and nothing is written, the update is accepted
  and the row stored with the new \<^verbatim>\<open>blocked_by\<close>, whatever the chain.
\<close>

theorem useUpdateTask_blocked_by_accepted:
  assumes ids: "distinct (map t_id (tasks d))"
    and a: "a \<in> set (tasks d)" "t_id a = i"
    and pol: "tasks_update_using uid d a"
    and prio: "priority_check a"
    and b: "j \<in> t_id ` set (tasks d)"
  shows "useUpdateTask pols uid now d i (no_columns\<lparr>u_blocked_by := Some (Some j)\<rparr>) =
         (if policy_recursion pols Update Tasks [] then Inl Infinite_recursion_in_policy
          else Inr (d\<lparr>tasks := map (\<lambda>x. if t_id x = i
                                          then x\<lparr>t_blocked_by := Some j, t_updated_at := now\<rparr>
                                          else x) (tasks d)\<rparr>,
                    a\<lparr>t_blocked_by := Some j, t_updated_at := now\<rparr>))"
proof -
  let ?n = "a\<lparr>t_blocked_by := Some j, t_updated_at := now\<rparr>"
  have poln: "tasks_update_using uid d ?n"
    using update_using_same_owner_project [OF pol, of ?n] by simp
  have "single (execute_update_tasks uid now d i (no_columns\<lparr>u_blocked_by := Some (Some j)\<rparr>)) =
        Inr (d\<lparr>tasks := map (\<lambda>x. if t_id x = i
            then update_updated_at_column now
                   (set_columns (no_columns\<lparr>u_blocked_by := Some (Some j)\<rparr>) x)
            else x) (tasks d)\<rparr>, ?n)"
  proof (rule execute_update_tasks_single_row [OF ids a pol])
    show "?n = update_updated_at_column now
                 (set_columns (no_columns\<lparr>u_blocked_by := Some (Some j)\<rparr>) a)"
      by (simp add: set_columns_blocked_by)
    show "tasks_update_check uid d ?n"
      using poln by (rule update_using_imp_check)
    show "tasks_select_using uid d ?n"
      using poln by (rule update_using_imp_select)
    show "priority_check ?n"
      using prio by (simp add: priority_check_def)
    show "tasks_foreign_keys d a ?n"
      using b by (simp add: tasks_foreign_keys_def fk_valid_def)
  qed
  then show ?thesis
    unfolding useUpdateTask_rewritten by (simp add: set_columns_blocked_by)
qed

text \<open>
  Task 61 is blocked by 60; blocking 60 by 61 would close a cycle. With the policies
  of the schema the statement is rejected while they are expanded.
\<close>

theorem useUpdateTask_blocked_by_accepted_witness:
  "61 \<in> t_id ` set (tasks chain_db) \<and>
   tasks_update_using 1 chain_db (new_task 60 1 None) \<and>
   useUpdateTask policies 1 8 chain_db 60 (no_columns\<lparr>u_blocked_by := Some (Some 61)\<rparr>) =
     Inl Infinite_recursion_in_policy"
proof -
  have ids: "distinct (map t_id (tasks chain_db))"
    by (simp add: chain_db_tables new_task_def)
  have a: "new_task 60 1 None \<in> set (tasks chain_db)" "t_id (new_task 60 1 None) = 60"
    by (simp_all add: chain_db_tables new_task_def)
  have pol: "tasks_update_using 1 chain_db (new_task 60 1 None)"
    by (simp add: policy_defs chain_db_tables new_task_def)
  have prio: "priority_check (new_task 60 1 None)"
    by (simp add: priority_check_def new_task_def)
  have b: "61 \<in> t_id ` set (tasks chain_db)"
    by (simp add: chain_db_tables new_task_def)
  from useUpdateTask_blocked_by_accepted [OF ids a pol prio b, of policies 8] b pol show ?thesis
    by (simp add: policies_recursion)
qed

text \<open>
  The claim as stated fails: the chain of task 62 reaches 60 through 61, and the
  update that blocks 60 by 62 is rejected, but with the error of the update that
  blocks 62 by 60, which closes no cycle: a cycle is not what the error reports.
\<close>

theorem useUpdateTask_cycle_counterexample:
  "map t_blocked_by (tasks chain_db) = [None, Some 60, Some 61] \<and>
   useUpdateTask policies 1 8 chain_db 60 (no_columns\<lparr>u_blocked_by := Some (Some 62)\<rparr>) =
     Inl Infinite_recursion_in_policy \<and>
   useUpdateTask policies 1 8 chain_db 62 (no_columns\<lparr>u_blocked_by := Some (Some 60)\<rparr>) =
     Inl Infinite_recursion_in_policy"
  by (simp add: hooks_stopped_by_recursion chain_db_tables new_task_def)

section \<open>The cascade\<close>

text \<open>The rows a cascade deletes are the rows that descend from the deleted ones.\<close>

lemma cascade_closure_unfold:
  "cascade_closure rows doomed =
     (if filter (\<lambda>i. i \<notin> set doomed)
            (map fst (filter (\<lambda>r. refers_to (snd r) doomed) rows)) = []
      then doomed
      else cascade_closure rows
             (doomed @ filter (\<lambda>i. i \<notin> set doomed)
                         (map fst (filter (\<lambda>r. refers_to (snd r) doomed) rows))))"
  by (subst cascade_closure.simps) (simp add: Let_def)

lemma cascade_closure_extends:
  "set doomed \<subseteq> set (cascade_closure rows doomed)"
proof (induction rows doomed rule: cascade_closure.induct)
  case (1 rows doomed)
  show ?case
  proof (cases "filter (\<lambda>i. i \<notin> set doomed)
            (map fst (filter (\<lambda>r. refers_to (snd r) doomed) rows)) = []")
    case True
    then show ?thesis
      by (subst cascade_closure_unfold) simp
  next
    case False
    from "1.IH" [OF refl False] False show ?thesis
      by (subst cascade_closure_unfold) auto
  qed
qed

lemma cascade_closure_closed:
  assumes "(i, Some p) \<in> set rows" and "p \<in> set (cascade_closure rows doomed)"
  shows "i \<in> set (cascade_closure rows doomed)"
  using assms
proof (induction rows doomed rule: cascade_closure.induct)
  case (1 rows doomed)
  show ?case
  proof (cases "filter (\<lambda>i. i \<notin> set doomed)
            (map fst (filter (\<lambda>r. refers_to (snd r) doomed) rows)) = []")
    case True
    then have eq: "cascade_closure rows doomed = doomed"
      by (subst cascade_closure_unfold) simp
    with "1.prems" have p: "p \<in> set doomed"
      by simp
    with "1.prems"(1) have "i \<in> set (map fst (filter (\<lambda>r. refers_to (snd r) doomed) rows))"
      by (force simp: refers_to_def)
    with True have "i \<in> set doomed"
      unfolding filter_empty_conv by blast
    with eq show ?thesis
      by simp
  next
    case False
    then have eq: "cascade_closure rows doomed =
        cascade_closure rows (doomed @ filter (\<lambda>i. i \<notin> set doomed)
                         (map fst (filter (\<lambda>r. refers_to (snd r) doomed) rows)))"
      by (subst cascade_closure_unfold) simp
    from "1.IH" [OF refl False "1.prems"(1)] "1.prems"(2) eq show ?thesis
      by simp
  qed
qed

lemma cascade_closure_sound:
  assumes "\<forall>i\<in>set doomed. descends rows roots i"
  shows "\<forall>i\<in>set (cascade_closure rows doomed). descends rows roots i"
  using assms
proof (induction rows doomed rule: cascade_closure.induct)
  case (1 rows doomed)
  show ?case
  proof (cases "filter (\<lambda>i. i \<notin> set doomed)
            (map fst (filter (\<lambda>r. refers_to (snd r) doomed) rows)) = []")
    case True
    then have "cascade_closure rows doomed = doomed"
      by (subst cascade_closure_unfold) simp
    with "1.prems" show ?thesis
      by simp
  next
    case False
    then have eq: "cascade_closure rows doomed =
        cascade_closure rows (doomed @ filter (\<lambda>i. i \<notin> set doomed)
                         (map fst (filter (\<lambda>r. refers_to (snd r) doomed) rows)))"
      by (subst cascade_closure_unfold) simp
    have "descends rows roots i"
      if "i \<in> set (map fst (filter (\<lambda>r. refers_to (snd r) doomed) rows))" for i
    proof -
      from that obtain p where "(i, Some p) \<in> set rows" and "p \<in> set doomed"
        by (auto simp: refers_to_def split: option.splits)
      with "1.prems" show ?thesis
        by (auto intro: descends.child)
    qed
    with "1.prems" have "\<forall>i\<in>set (doomed @ filter (\<lambda>i. i \<notin> set doomed)
        (map fst (filter (\<lambda>r. refers_to (snd r) doomed) rows))). descends rows roots i"
      by auto
    from "1.IH" [OF refl False this] eq show ?thesis
      by simp
  qed
qed

lemma cascade_closure_iff:
  "i \<in> set (cascade_closure rows roots) \<longleftrightarrow> descends rows roots i"
proof
  assume "i \<in> set (cascade_closure rows roots)"
  moreover have "\<forall>i\<in>set roots. descends rows roots i"
    by (auto intro: descends.root)
  ultimately show "descends rows roots i"
    using cascade_closure_sound by blast
next
  assume "descends rows roots i"
  then show "i \<in> set (cascade_closure rows roots)"
  proof (induction rule: descends.induct)
    case (root i)
    then show ?case
      using cascade_closure_extends by blast
  next
    case (child i p)
    then show ?case
      by (blast intro: cascade_closure_closed)
  qed
qed

section \<open>Deleting a project\<close>

lemma task_set_null_fields:
  "t_id (task_set_null now doomed gone t) = t_id t"
  "t_project_id (task_set_null now doomed gone t) =
     (if refers_to (t_project_id t) doomed then None else t_project_id t)"
  by (simp_all add: task_set_null_def Let_def update_updated_at_column_def)

text \<open>
  C6. When project \<open>i\<close> is deleted, the referential actions leave the projects and
  the sections outside the subtree of \<open>i\<close> (the project, its subprojects and
  theirs) and no other; every task is still there, with its project reference
  cleared if the project was in the subtree and kept otherwise.
\<close>

theorem projects_on_delete_cascade:
  "projects (projects_on_delete now d [i]) =
     filter (\<lambda>q. \<not> descends (project_tree d) [i] (pr_id q)) (projects d) \<and>
   sections (projects_on_delete now d [i]) =
     filter (\<lambda>s. \<not> descends (project_tree d) [i] (se_project_id s)) (sections d) \<and>
   map t_id (tasks (projects_on_delete now d [i])) = map t_id (tasks d) \<and>
   map t_project_id (tasks (projects_on_delete now d [i])) =
     map (\<lambda>t. case t_project_id t of
                None \<Rightarrow> None
              | Some q \<Rightarrow> if descends (project_tree d) [i] q then None else Some q)
       (tasks d)"
proof -
  have doomed: "q \<in> set (cascade_closure (project_tree d) [i]) \<longleftrightarrow>
                descends (project_tree d) [i] q" for q
    by (rule cascade_closure_iff)
  have proj: "t_project_id (task_set_null now (cascade_closure (project_tree d) [i]) gone t) =
          (case t_project_id t of
             None \<Rightarrow> None
           | Some q \<Rightarrow> if descends (project_tree d) [i] q then None else Some q)" for gone t
    by (simp add: task_set_null_fields refers_to_def doomed split: option.splits)
  show ?thesis
    unfolding projects_on_delete_def Let_def
    by (simp add: doomed proj task_set_null_fields(1) comp_def)
qed

text \<open>Deleting project 10, whose subtree is 10, 11 and 12.\<close>

theorem projects_on_delete_cascade_witness:
  "projects (projects_on_delete 8 tree_db [10]) = [new_project 13 1 None] \<and>
   sections (projects_on_delete 8 tree_db [10]) = [new_section 23 13] \<and>
   map t_id (tasks (projects_on_delete 8 tree_db [10])) = [30, 31, 33, 32] \<and>
   map t_project_id (tasks (projects_on_delete 8 tree_db [10])) = [None, None, Some 13, None]"
proof -
  have c: "cascade_closure (project_tree tree_db) [10] = [10, 11, 12]"
    by (simp add: cascade_closure_unfold project_tree_def tree_db_tables refers_to_def
        new_project_def)
  have d: "descends (project_tree tree_db) [10] q \<longleftrightarrow> q \<in> {10, 11, 12}" for q
    using cascade_closure_iff [of q "project_tree tree_db" "[10]"] c by simp
  have f1: "filter (\<lambda>q. \<not> descends (project_tree tree_db) [10] (pr_id q)) (projects tree_db) =
            [new_project 13 1 None]"
    by (simp add: d tree_db_tables new_project_def)
  have f2: "filter (\<lambda>s. \<not> descends (project_tree tree_db) [10] (se_project_id s))
              (sections tree_db) = [new_section 23 13]"
    by (simp add: d tree_db_tables new_section_def)
  have f3: "map t_id (tasks tree_db) = [30, 31, 33, 32]"
    by (simp add: tree_db_tables new_task_def)
  have f4: "map (\<lambda>t. case t_project_id t of
                      None \<Rightarrow> None
                    | Some q \<Rightarrow> if descends (project_tree tree_db) [10] q then None else Some q)
             (tasks tree_db) = [None, None, Some 13, None]"
    by (simp add: d tree_db_tables new_task_def)
  from projects_on_delete_cascade [of 8 tree_db 10] show ?thesis
    unfolding f1 f2 f3 f4 .
qed

text \<open>
  The DELETE of \<^verbatim>\<open>useDeleteProject\<close>, sent by the owner of the one project with id
  \<open>i\<close>, is a delete of that row, unless the database rejects the statement while it
  expands the policies.
\<close>

lemma filter_pr_id_distinct:
  assumes "distinct (map pr_id ps)" and "p \<in> set ps" and "P p"
  shows "filter (\<lambda>x. pr_id x = pr_id p \<and> P x) ps = [p]"
  using assms
proof (induction ps)
  case Nil
  then show ?case by simp
next
  case (Cons x xs)
  show ?case
  proof (cases "x = p")
    case True
    with Cons.prems have "pr_id p \<notin> pr_id ` set xs"
      by simp
    then have "\<forall>y\<in>set xs. pr_id y \<noteq> pr_id p"
      by (metis imageI)
    then have "filter (\<lambda>x. pr_id x = pr_id p \<and> P x) xs = []"
      by (auto simp: filter_empty_conv)
    with True Cons.prems show ?thesis by simp
  next
    case False
    with Cons.prems have "p \<in> set xs" and "pr_id x \<noteq> pr_id p"
      by force+
    with Cons show ?thesis by simp
  qed
qed

lemma useDeleteProject_owner:
  assumes "distinct (map pr_id (projects d))"
    and "p \<in> set (projects d)" and "pr_id p = i" and "pr_owner_id p = uid"
  shows "useDeleteProject pols uid now d i =
         (if policy_recursion pols Delete Projects [] then Inl Infinite_recursion_in_policy
          else Inr (projects_on_delete now d [i], ()))"
proof -
  have own: "projects_select_using uid d p \<and> projects_delete_using uid p"
    using assms(4)
    by (simp add: projects_select_using_def projects_delete_using_def view_own_projects_def
        delete_own_projects_def)
  have "filter (\<lambda>q. pr_id q = pr_id p \<and>
                  (projects_select_using uid d q \<and> projects_delete_using uid q)) (projects d) = [p]"
    using assms(1,2) own by (rule filter_pr_id_distinct)
  with assms(3) show ?thesis
    by (simp add: useDeleteProject_def)
qed

section \<open>Deleting a task\<close>

text \<open>
  The DELETE of \<^verbatim>\<open>useDeleteTask\<close>, sent by a user who may delete the one task with
  id \<open>i\<close>, is a delete of that row, unless the database rejects the statement while
  it expands the policies.
\<close>

lemma delete_using_imp_select:
  "tasks_delete_using uid d t \<Longrightarrow> tasks_select_using uid d t"
  by (auto simp: tasks_delete_using_def tasks_select_using_def delete_own_inbox_tasks_def
      view_own_inbox_tasks_def)

lemma useDeleteTask_permitted:
  assumes "distinct (map t_id (tasks d))"
    and "x \<in> set (tasks d)" and "t_id x = i" and "tasks_delete_using uid d x"
  shows "useDeleteTask pols uid now d i =
         (if policy_recursion pols Delete Tasks [] then Inl Infinite_recursion_in_policy
          else Inr (tasks_on_delete now d [i], ()))"
proof -
  have may: "tasks_select_using uid d x \<and> tasks_delete_using uid d x"
    using assms(4) delete_using_imp_select by blast
  have "filter (\<lambda>t. t_id t = t_id x \<and>
                  (tasks_select_using uid d t \<and> tasks_delete_using uid d t)) (tasks d) = [x]"
    using assms(1,2) may by (rule filter_id_distinct)
  with assms(3) show ?thesis
    by (simp add: useDeleteTask_def)
qed

lemma task_unblock_id: "t_id (task_unblock now doomed t) = t_id t"
  by (simp add: task_unblock_def update_updated_at_column_def)

lemma filter_id_map_unblock:
  "filter (\<lambda>z. t_id z = k) (map (task_unblock now doomed) ts) =
   map (task_unblock now doomed) (filter (\<lambda>z. t_id z = k) ts)"
  by (induction ts) (simp_all add: task_unblock_id)

text \<open>
  C7 (amended). Let \<open>y\<close> be blocked by task \<open>i\<close>, and let \<open>y\<close> be neither task \<open>i\<close>
  nor a direct or transitive subtask of it. When task \<open>i\<close> is deleted, the
  referential actions leave the row of \<open>y\<close>, once, with \<^verbatim>\<open>blocked_by\<close> cleared and
  \<^verbatim>\<open>updated_at\<close> set by the trigger, every other column as before; task \<open>i\<close> is gone.
\<close>

theorem tasks_on_delete_clears_blocked_by:
  assumes ids: "distinct (map t_id (tasks d))"
    and y: "y \<in> set (tasks d)" "t_blocked_by y = Some i"
    and keep: "\<not> descends (task_tree d) [i] (t_id y)"
  shows "filter (\<lambda>z. t_id z = t_id y) (tasks (tasks_on_delete now d [i])) =
           [y\<lparr>t_blocked_by := None, t_updated_at := now\<rparr>] \<and>
         i \<notin> t_id ` set (tasks (tasks_on_delete now d [i]))"
proof -
  define doomed where "doomed = cascade_closure (task_tree d) [i]"
  have doomed: "q \<in> set doomed \<longleftrightarrow> descends (task_tree d) [i] q" for q
    unfolding doomed_def by (rule cascade_closure_iff)
  have i: "i \<in> set doomed"
    unfolding doomed by (rule descends.root) simp
  have tasks': "tasks (tasks_on_delete now d [i]) =
                  map (task_unblock now doomed) (filter (\<lambda>t. t_id t \<notin> set doomed) (tasks d))"
    unfolding tasks_on_delete_def Let_def doomed_def by simp
  have "filter (\<lambda>z. t_id z = t_id y) (filter (\<lambda>t. t_id t \<notin> set doomed) (tasks d)) =
        filter (\<lambda>z. t_id z = t_id y \<and> t_id z \<notin> set doomed) (tasks d)"
    unfolding filter_filter by (rule filter_cong) auto
  also have "\<dots> = [y]"
  proof (rule filter_id_distinct [OF ids y(1)])
    show "t_id y \<notin> set doomed"
      unfolding doomed by (rule keep)
  qed
  finally have "filter (\<lambda>z. t_id z = t_id y) (tasks (tasks_on_delete now d [i])) =
                  [task_unblock now doomed y]"
    unfolding tasks' filter_id_map_unblock by simp
  moreover have "task_unblock now doomed y = y\<lparr>t_blocked_by := None, t_updated_at := now\<rparr>"
    using y(2) i by (simp add: task_unblock_def refers_to_def update_updated_at_column_def)
  moreover have "i \<notin> t_id ` set (tasks (tasks_on_delete now d [i]))"
    unfolding tasks' using i by (auto simp: task_unblock_id)
  ultimately show ?thesis
    by simp
qed

text \<open>Deleting task 60 of the chain unblocks task 61.\<close>

theorem tasks_on_delete_clears_blocked_by_witness:
  "t_blocked_by ((new_task 61 1 None)\<lparr>t_blocked_by := Some 60\<rparr>) = Some 60 \<and>
   \<not> descends (task_tree chain_db) [60] 61 \<and>
   filter (\<lambda>z. t_id z = 61) (tasks (tasks_on_delete 8 chain_db [60])) =
     [(new_task 61 1 None)\<lparr>t_blocked_by := None, t_updated_at := 8\<rparr>] \<and>
   60 \<notin> t_id ` set (tasks (tasks_on_delete 8 chain_db [60]))"
proof -
  have c: "cascade_closure (task_tree chain_db) [60] = [60]"
    by (simp add: cascade_closure_unfold task_tree_def chain_db_tables refers_to_def new_task_def)
  have k: "\<not> descends (task_tree chain_db) [60] 61"
    using cascade_closure_iff [of 61 "task_tree chain_db" "[60]"] c by simp
  have i: "t_id ((new_task 61 1 None)\<lparr>t_blocked_by := Some 60\<rparr>) = 61"
    by (simp add: new_task_def)
  have keep: "\<not> descends (task_tree chain_db) [60]
                 (t_id ((new_task 61 1 None)\<lparr>t_blocked_by := Some 60\<rparr>))"
    using k unfolding i .
  have ids: "distinct (map t_id (tasks chain_db))"
    by (simp add: chain_db_tables new_task_def)
  have y: "(new_task 61 1 None)\<lparr>t_blocked_by := Some 60\<rparr> \<in> set (tasks chain_db)"
    "t_blocked_by ((new_task 61 1 None)\<lparr>t_blocked_by := Some 60\<rparr>) = Some 60"
    by (simp_all add: chain_db_tables)
  from tasks_on_delete_clears_blocked_by [OF ids y keep, of 8] k y(2) show ?thesis
    unfolding i by simp
qed

text \<open>
  The claim as stated fails: task 71 is blocked by task 70 and is its subtask, and
  the delete of 70 deletes 71 with it; task 72, blocked by 70 only, stays, with a
  new \<^verbatim>\<open>updated_at\<close>.
\<close>

theorem tasks_on_delete_subtask_counterexample:
  "tasks (tasks_on_delete 8 subtask_db [70]) =
     [(new_task 72 1 None)\<lparr>t_blocked_by := None, t_updated_at := 8\<rparr>]"
proof -
  have c: "cascade_closure (task_tree subtask_db) [70] = [70, 71]"
    by (simp add: cascade_closure_unfold task_tree_def subtask_db_tasks refers_to_def
        new_task_def)
  show ?thesis
    unfolding tasks_on_delete_def Let_def c
    by (simp add: subtask_db_tasks new_task_def task_unblock_def refers_to_def
        update_updated_at_column_def)
qed

section \<open>Subtasks whose parent is not fetched\<close>

lemma build_task_map_dom:
  "dom (build_task_map ts m) = dom m \<union> t_id ` set ts"
  by (induction ts arbitrary: m) auto

lemma build_task_map_subtasks:
  assumes "build_task_map ts m k = Some (obj, subs)"
  shows "subs = [] \<or> m k = Some (obj, subs)"
  using assms
proof (induction ts arbitrary: m)
  case Nil
  then show ?case by simp
next
  case (Cons t ts)
  from Cons.IH [OF Cons.prems [simplified]] show ?case
    by (auto split: if_splits)
qed

lemma attach_subtasks_dom:
  "dom (snd (attach_subtasks ts m tops)) = dom m"
proof (induction ts arbitrary: m tops)
  case Nil
  then show ?case by simp
next
  case (Cons t ts)
  show ?case
  proof (cases "t_parent_task_id t")
    case None
    then show ?thesis
      by (simp add: Cons.IH)
  next
    case (Some pid)
    show ?thesis
    proof (cases "m pid")
      case None
      with Some show ?thesis
        by (simp add: Cons.IH)
    next
      case (Some a)
      obtain parent subs where a: "a = (parent, subs)"
        by (cases a)
      have step: "attach_subtasks (t # ts) m tops =
                    attach_subtasks ts (m(pid \<mapsto> (parent, subs @ [t_id t]))) tops"
        using Some a \<open>t_parent_task_id t = Some pid\<close> by simp
      have "dom (m(pid \<mapsto> (parent, subs @ [t_id t]))) = dom m"
        using Some by auto
      then show ?thesis
        unfolding step Cons.IH .
    qed
  qed
qed

lemma attach_subtasks_top:
  assumes "r \<in> set (fst (attach_subtasks ts m tops))"
  shows "r \<in> set tops \<or> (\<exists>t\<in>set ts. t_id t = r \<and> t_parent_task_id t = None)"
  using assms
proof (induction ts arbitrary: m tops)
  case Nil
  then show ?case by simp
next
  case (Cons t ts)
  show ?case
  proof (cases "t_parent_task_id t")
    case None
    with Cons.prems have "r \<in> set (fst (attach_subtasks ts m (tops @ [t_id t])))"
      by simp
    from Cons.IH [OF this] None show ?thesis
      by auto
  next
    case (Some pid)
    show ?thesis
    proof (cases "m pid")
      case None
      with Some Cons.prems have "r \<in> set (fst (attach_subtasks ts m tops))"
        by simp
      from Cons.IH [OF this] show ?thesis
        by auto
    next
      case (Some a)
      obtain parent subs where a: "a = (parent, subs)"
        by (cases a)
      with Some \<open>t_parent_task_id t = Some pid\<close> Cons.prems
      have "r \<in> set (fst (attach_subtasks ts (m(pid \<mapsto> (parent, subs @ [t_id t]))) tops))"
        by simp
      from Cons.IH [OF this] show ?thesis
        by auto
    qed
  qed
qed

lemma attach_subtasks_subtasks:
  assumes "snd (attach_subtasks ts m tops) p = Some (obj, subs)" and "r \<in> set subs"
  shows "(\<exists>obj' subs'. m p = Some (obj', subs') \<and> r \<in> set subs') \<or>
         (\<exists>t\<in>set ts. t_id t = r \<and> t_parent_task_id t = Some p \<and> p \<in> dom m)"
  using assms
proof (induction ts arbitrary: m tops)
  case Nil
  then show ?case by simp
next
  case (Cons t ts)
  show ?case
  proof (cases "t_parent_task_id t")
    case None
    with Cons.prems have "snd (attach_subtasks ts m (tops @ [t_id t])) p = Some (obj, subs)"
      by simp
    from Cons.IH [OF this Cons.prems(2)] show ?thesis
      by auto
  next
    case (Some pid)
    note parent = this
    show ?thesis
    proof (cases "m pid")
      case None
      with parent Cons.prems have "snd (attach_subtasks ts m tops) p = Some (obj, subs)"
        by simp
      from Cons.IH [OF this Cons.prems(2)] show ?thesis
        by auto
    next
      case (Some a)
      obtain pobj psubs where a: "a = (pobj, psubs)"
        by (cases a)
      let ?m = "m(pid \<mapsto> (pobj, psubs @ [t_id t]))"
      from Some a parent Cons.prems
      have "snd (attach_subtasks ts ?m tops) p = Some (obj, subs)"
        by simp
      from Cons.IH [OF this Cons.prems(2)]
      consider obj' subs' where "?m p = Some (obj', subs')" "r \<in> set subs'"
        | t' where "t' \<in> set ts" "t_id t' = r" "t_parent_task_id t' = Some p" "p \<in> dom ?m"
        by blast
      then show ?thesis
      proof cases
        case 1
        show ?thesis
        proof (cases "p = pid")
          case True
          with 1 have "r \<in> set psubs \<or> r = t_id t"
            by auto
          with True Some a parent show ?thesis
            by auto
        next
          case False
          with 1 show ?thesis
            by auto
        qed
      next
        case 2
        with Some have "p \<in> dom m"
          by (auto split: if_splits)
        with 2 show ?thesis
          by auto
      qed
    qed
  qed
qed

lemma assemble_orphan:
  assumes ids: "distinct (map t_id allTasks)"
    and t: "t \<in> set allTasks" "t_parent_task_id t = Some p"
    and p: "p \<notin> t_id ` set allTasks"
  shows "t_id t \<notin> set (fst (assemble allTasks))"
    and "snd (assemble allTasks) q = Some (obj, subs) \<Longrightarrow> t_id t \<notin> set subs"
    and "\<not> in_result (assemble allTasks) (t_id t)"
proof -
  have only: "t' = t" if "t' \<in> set allTasks" "t_id t' = t_id t" for t'
    using ids t(1) that by (meson distinct_map inj_onD)
  show nt: "t_id t \<notin> set (fst (assemble allTasks))"
  proof
    assume "t_id t \<in> set (fst (assemble allTasks))"
    then obtain t' where t': "t' \<in> set allTasks" "t_id t' = t_id t" "t_parent_task_id t' = None"
      unfolding assemble_def using attach_subtasks_top by fastforce
    from only [OF t'(1,2)] t'(3) t(2) show False
      by simp
  qed
  have sub: "t_id t \<notin> set subs'"
    if "snd (assemble allTasks) q' = Some (obj', subs')" for q' obj' subs'
  proof
    assume r: "t_id t \<in> set subs'"
    from attach_subtasks_subtasks [OF that [unfolded assemble_def] r]
    consider o1 s1 where "build_task_map allTasks Map.empty q' = Some (o1, s1)" "t_id t \<in> set s1"
      | t' where "t' \<in> set allTasks" "t_id t' = t_id t" "t_parent_task_id t' = Some q'"
          "q' \<in> dom (build_task_map allTasks Map.empty)"
      by blast
    then show False
    proof cases
      case 1
      from build_task_map_subtasks [OF 1(1)] 1(2) show False
        by auto
    next
      case 2
      from only [OF 2(1,2)] 2(3) t(2) have "q' = p"
        by simp
      with 2(4) p show False
        by (simp add: build_task_map_dom)
    qed
  qed
  then show "snd (assemble allTasks) q = Some (obj, subs) \<Longrightarrow> t_id t \<notin> set subs" .
  show "\<not> in_result (assemble allTasks) (t_id t)"
  proof
    assume "in_result (assemble allTasks) (t_id t)"
    then show False
      using nt sub by cases auto
  qed
qed

lemma distinct_map_insort_key:
  "distinct (map g (insort_key f x xs)) \<longleftrightarrow> g x \<notin> g ` set xs \<and> distinct (map g xs)"
  by (induction xs) (auto simp: set_insort_key)

lemma distinct_map_sort_key:
  "distinct (map g (sort_key f xs)) \<longleftrightarrow> distinct (map g xs)"
  by (induction xs) (simp_all add: distinct_map_insort_key)

lemma fetch_tasks_distinct:
  assumes "distinct (map t_id (tasks d))"
  shows "distinct (map t_id (fetch_tasks uid d opts todayStr))"
  unfolding fetch_tasks_def distinct_map_sort_key
  using assms by (rule distinct_map_filter)

text \<open>
  C10. A fetched task whose parent is set but is not among the fetched tasks is
  not in \<^verbatim>\<open>topLevelTasks\<close>, is in no \<^verbatim>\<open>subtasks\<close> array, and so cannot be reached
  from the result of \<^verbatim>\<open>useTasks\<close>. Task ids are the primary key of \<^verbatim>\<open>tasks\<close>.
\<close>

theorem useTasks_orphan_subtask_invisible:
  assumes "distinct (map t_id (tasks d))"
    and "t \<in> set (fetch_tasks uid d opts todayStr)"
    and "t_parent_task_id t = Some p"
    and "p \<notin> t_id ` set (fetch_tasks uid d opts todayStr)"
  shows "t_id t \<notin> set (fst (useTasks uid d opts todayStr)) \<and>
         (\<forall>q obj subs. snd (useTasks uid d opts todayStr) q = Some (obj, subs) \<longrightarrow>
            t_id t \<notin> set subs) \<and>
         \<not> in_result (useTasks uid d opts todayStr) (t_id t)"
  unfolding useTasks_def
  using assemble_orphan [OF fetch_tasks_distinct [OF assms(1)] assms(2,3,4)]
  by blast

text \<open>
  Task 80 is done, so the query for open tasks fetches its subtask 81 without it:
  the result lists task 82 alone.
\<close>

theorem useTasks_orphan_subtask_invisible_witness:
  "fetch_tasks 1 done_parent_db all_tasks_view 0 =
     [(new_task 81 1 None)\<lparr>t_parent_task_id := Some 80\<rparr>, new_task 82 1 None] \<and>
   fst (useTasks 1 done_parent_db all_tasks_view 0) = [82] \<and>
   \<not> in_result (useTasks 1 done_parent_db all_tasks_view 0) 81"
proof -
  have f: "fetch_tasks 1 done_parent_db all_tasks_view 0 =
     [(new_task 81 1 None)\<lparr>t_parent_task_id := Some 80\<rparr>, new_task 82 1 None]"
    by (simp add: fetch_tasks_def done_parent_db_tables tasks_select_using_def
        view_own_inbox_tasks_def view_tasks_in_accessible_projects_def
        modify_own_tasks_in_projects_def view_filter_def all_tasks_view_def new_task_def)
  have ids: "distinct (map t_id (tasks done_parent_db))"
    by (simp add: done_parent_db_tables new_task_def)
  have t: "(new_task 81 1 None)\<lparr>t_parent_task_id := Some 80\<rparr>
             \<in> set (fetch_tasks 1 done_parent_db all_tasks_view 0)"
    "t_parent_task_id ((new_task 81 1 None)\<lparr>t_parent_task_id := Some 80\<rparr>) = Some 80"
    "80 \<notin> t_id ` set (fetch_tasks 1 done_parent_db all_tasks_view 0)"
    unfolding f by (simp_all add: new_task_def)
  have i: "t_id ((new_task 81 1 None)\<lparr>t_parent_task_id := Some 80\<rparr>) = 81"
    by (simp add: new_task_def)
  have tops: "fst (useTasks 1 done_parent_db all_tasks_view 0) = [82]"
    unfolding useTasks_def f by (simp add: assemble_def new_task_def)
  from useTasks_orphan_subtask_invisible [OF ids t] f tops show ?thesis
    unfolding i by simp
qed

end
